theory Spec2Isabelle
  imports Complex_Main
begin

section \<open>Data model of the scrollable table\<close>

text \<open>
  The controller of \<^verbatim>\<open>src/js/scrollable-table.js\<close> keeps a bounded pool of DOM row
  nodes and moves them between data rows while the container scrolls.

  JavaScript numbers that carry pixel positions are modelled as exact rationals
  (\<^typ>\<open>rat\<close>); indices and counts are natural numbers. DOM nodes live in an explicit
  store: a node is a handle (a natural number), \<open>style_top\<close> maps a handle to the value
  written to \<^verbatim>\<open>node.style.top\<close> (the \<^verbatim>\<open>'px'\<close> suffix is dropped), and the children
  of the container are a list of handles. The two caller callbacks are opaque in the
  source: \<^verbatim>\<open>buildRow\<close> is taken to return a new node on every call (a fresh handle),
  and \<^verbatim>\<open>updateRow\<close> is recorded in the trace \<open>events\<close>.
\<close>

record 'a row =
  payload :: 'a
  row_top :: rat
  row_node :: "nat option"

datatype event =
    BuildRow nat nat
  | UpdateRow nat "nat option"

datatype error = TypeError

record 'a table =
  data :: "'a row list"
  heightFn :: "'a row \<Rightarrow> rat"
  availableNodes :: nat
  visibleHeight :: rat
  rowsWithNodes :: "nat list"
  yPosition :: rat
  totalHeight :: rat
  lastMidNdx :: "nat option"
  isUpdating :: bool
  bottomEl :: "nat option"
  el_children :: "nat list"
  el_attached :: bool
  el_height :: "rat option"
  el_listeners :: nat
  style_top :: "nat \<Rightarrow> rat option"
  next_node :: nat
  events :: "event list"

section \<open>Offset index: \<^verbatim>\<open>calculateHeights\<close> and \<^verbatim>\<open>setHeight\<close>\<close>

text \<open>
  The loop of \<^verbatim>\<open>calculateHeights\<close>: row \<open>ndx\<close> receives the running total as its
  \<^verbatim>\<open>__top\<close>, then the height function is called on that (already updated) row object
  and its result is added to the total.
\<close>

function calculateHeights_loop :: "nat \<Rightarrow> 'a table \<Rightarrow> 'a table" where
  "calculateHeights_loop ndx s =
     (if ndx < length (data s) then
        let r = (data s ! ndx)\<lparr>row_top := totalHeight s\<rparr>;
            s1 = s\<lparr>data := (data s)[ndx := r]\<rparr>
        in calculateHeights_loop (Suc ndx) (s1\<lparr>totalHeight := totalHeight s1 + heightFn s1 r\<rparr>)
      else s)"
  by pat_completeness auto
termination
  by (relation "measure (\<lambda>(ndx, s). length (data s) - ndx)") auto

definition calculateHeights :: "'a table \<Rightarrow> rat \<times> 'a table" where
  "calculateHeights s =
     (let s' = calculateHeights_loop 0 (s\<lparr>totalHeight := 0\<rparr>) in (totalHeight s', s'))"

text \<open>
  \<^verbatim>\<open>setHeight\<close> recomputes the offsets and styles the container; of the three style
  properties only the height is kept in the model (\<^verbatim>\<open>overflow\<close> and \<^verbatim>\<open>position\<close> are
  constants). Both functions ignore their parameter and read \<^verbatim>\<open>this.heightFn\<close>.
\<close>

definition setHeight :: "'a table \<Rightarrow> 'a table" where
  "setHeight s =
     (let s' = snd (calculateHeights s) in s'\<lparr>el_height := Some (visibleHeight s')\<rparr>)"

section \<open>Lifecycle: \<^verbatim>\<open>reset\<close> and the constructor\<close>

text \<open>
  \<^verbatim>\<open>while (this.el.firstChild) { this.el.remove(this.el.firstChild); }\<close>

  \<^verbatim>\<open>Element.remove()\<close> of the DOM takes no argument: it detaches the element it is
  called on from that element's parent and leaves the element's own child list as it is.
  So one round of the loop detaches the container and \<^verbatim>\<open>firstChild\<close> is what it was.
  The loop may run forever, hence the option type: \<open>None\<close> is "does not return".
\<close>

partial_function (option) clearChildren :: "'a table \<Rightarrow> 'a table option" where
  "clearChildren s =
     (case el_children s of
        [] \<Rightarrow> Some s
      | firstChild # rest \<Rightarrow> clearChildren (s\<lparr>el_attached := False\<rparr>))"

declare clearChildren.simps [code]

text \<open>
  The build loop. Its bound \<^verbatim>\<open>nodesToBuild = Math.min(availableNodes, data.length)\<close>
  is computed once before the loop in the source; neither operand changes inside the
  loop, so the model reads it off the state in the loop test.
\<close>

function buildRows :: "nat \<Rightarrow> 'a table \<Rightarrow> 'a table" where
  "buildRows ndx s =
     (if ndx < min (availableNodes s) (length (data s)) then
        let newRow = next_node s;
            s1 = s\<lparr>next_node := Suc newRow, events := events s @ [BuildRow ndx newRow]\<rparr>;
            s2 = s1\<lparr>style_top := (style_top s1)(newRow \<mapsto> row_top (data s1 ! ndx))\<rparr>;
            s3 = s2\<lparr>el_children := el_children s2 @ [newRow]\<rparr>;
            s4 = s3\<lparr>rowsWithNodes := rowsWithNodes s3 @ [ndx]\<rparr>;
            s5 = s4\<lparr>data := (data s4)[ndx := (data s4 ! ndx)\<lparr>row_node := Some newRow\<rparr>]\<rparr>
        in buildRows (Suc ndx) s5
      else s)"
  by pat_completeness auto
termination
  by (relation "measure (\<lambda>(ndx, s). min (availableNodes s) (length (data s)) - ndx)") auto

definition addBottomEl :: "'a table \<Rightarrow> 'a table" where
  "addBottomEl s =
     (let b = next_node s;
          s1 = s\<lparr>next_node := Suc b, bottomEl := Some b\<rparr>;
          s2 = s1\<lparr>style_top := (style_top s1)(b \<mapsto> totalHeight s1)\<rparr>
      in s2\<lparr>el_children := el_children s2 @ [b]\<rparr>)"

definition reset :: "'a table \<Rightarrow> 'a table option" where
  "reset s =
     (let s1 = s\<lparr>yPosition := 0\<rparr>;
          s2 = setHeight s1
      in case clearChildren s2 of
           None \<Rightarrow> None
         | Some s3 \<Rightarrow>
             let s4 = s3\<lparr>data := map (\<lambda>r. r\<lparr>row_node := None\<rparr>) (data s3)\<rparr>;
                 s5 = s4\<lparr>rowsWithNodes := []\<rparr>;
                 s6 = buildRows 0 s5;
                 s7 = addBottomEl s6
             in Some (s7\<lparr>el_listeners := Suc (el_listeners s7)\<rparr>))"

text \<open>
  The constructor on a container with the given children: it stores the options, starts
  with an empty \<^verbatim>\<open>rowsWithNodes\<close> and calls \<^verbatim>\<open>reset\<close>. The caller's row objects
  carry no \<^verbatim>\<open>__top\<close> and no \<^verbatim>\<open>__node\<close> yet; \<^verbatim>\<open>reset\<close> writes both before reading them.
  The four checks for a missing option throw before any state exists and are left out:
  the model starts from options that are present.
\<close>

definition new_table ::
  "nat list \<Rightarrow> 'a list \<Rightarrow> ('a row \<Rightarrow> rat) \<Rightarrow> nat \<Rightarrow> rat \<Rightarrow> 'a table" where
  "new_table children rows hf avail vh =
     \<lparr>data = map (\<lambda>p. \<lparr>payload = p, row_top = 0, row_node = None\<rparr>) rows,
      heightFn = hf, availableNodes = avail, visibleHeight = vh,
      rowsWithNodes = [], yPosition = 0, totalHeight = 0, lastMidNdx = None,
      isUpdating = False, bottomEl = None, el_children = children, el_attached = True,
      el_height = None, el_listeners = 0, style_top = Map.empty,
      next_node = (if children = [] then 0 else Suc (Max (set children))), events = []\<rparr>"

definition ScrollableTable ::
  "nat list \<Rightarrow> 'a list \<Rightarrow> ('a row \<Rightarrow> rat) \<Rightarrow> nat \<Rightarrow> rat \<Rightarrow> 'a table option" where
  "ScrollableTable children rows hf avail vh = reset (new_table children rows hf avail vh)"

section \<open>Scroll handler: \<^verbatim>\<open>updateVisibleRows\<close>\<close>

text \<open>
  The handler reads \<^verbatim>\<open>el.scrollTop\<close> and \<^verbatim>\<open>el.clientHeight\<close> from the host; the model
  takes the two as arguments. The timing calls (\<^verbatim>\<open>performance.now\<close>, \<^verbatim>\<open>console.log\<close>)
  have no effect on the controller and are left out.
\<close>

text \<open>
  Modelled from the spec: \<^verbatim>\<open>_.sortedIndex\<close> belongs to the lodash library, which is
  not part of the repository. The spec calls it the "standard lower-bound search,
  O(log n)"; this is that binary search, comparing through the iteratee as the
  three-argument form \<^verbatim>\<open>_.sortedIndex(array, value, iteratee)\<close> does.
\<close>

function sortedIndex_loop :: "'b list \<Rightarrow> rat \<Rightarrow> ('b \<Rightarrow> rat) \<Rightarrow> nat \<Rightarrow> nat \<Rightarrow> nat" where
  "sortedIndex_loop array v iteratee low high =
     (if low < high then
        let mid = (low + high) div 2
        in if iteratee (array ! mid) < v
           then sortedIndex_loop array v iteratee (Suc mid) high
           else sortedIndex_loop array v iteratee low mid
      else high)"
  by pat_completeness auto
termination
  by (relation "measure (\<lambda>(array, v, iteratee, low, high). high - low)") auto

definition sortedIndex :: "'b list \<Rightarrow> rat \<Rightarrow> ('b \<Rightarrow> rat) \<Rightarrow> nat" where
  "sortedIndex array v iteratee = sortedIndex_loop array v iteratee 0 (length array)"

definition screenMidpoint :: "rat \<Rightarrow> rat \<Rightarrow> rat" where
  "screenMidpoint scrollTop clientHeight =
     (let screenTop = scrollTop; screenBottom = scrollTop + clientHeight
      in (screenTop + screenBottom) / 2)"

definition halfNodes :: "'a table \<Rightarrow> int" where
  "halfNodes s = \<lceil>rat_of_nat (availableNodes s) / 2\<rceil>"

definition fillStart_of :: "'a table \<Rightarrow> nat \<Rightarrow> nat" where
  "fillStart_of s midNdx = nat (max 0 (int midNdx - halfNodes s))"

definition fillEnd_of :: "'a table \<Rightarrow> nat \<Rightarrow> nat" where
  "fillEnd_of s midNdx = nat (min (int (length (data s))) (int midNdx + halfNodes s))"

text \<open>
  The inner \<^verbatim>\<open>while\<close> of the pass. Reading \<^verbatim>\<open>rowsWithNodes\<close> past its end gives
  \<^verbatim>\<open>undefined\<close>, and \<^verbatim>\<open>undefined > fillStart\<close> is false, so the scan stops there.
\<close>

function scan_free :: "nat list \<Rightarrow> nat \<Rightarrow> nat \<Rightarrow> nat \<Rightarrow> nat" where
  "scan_free rwn fillStart fillEnd freeSearchNdx =
     (if freeSearchNdx < length rwn \<and> rwn ! freeSearchNdx > fillStart
         \<and> rwn ! freeSearchNdx < fillEnd
      then scan_free rwn fillStart fillEnd (Suc freeSearchNdx)
      else freeSearchNdx)"
  by pat_completeness auto
termination
  by (relation "measure (\<lambda>(rwn, fillStart, fillEnd, freeSearchNdx). length rwn - freeSearchNdx)")
     auto

text \<open>
  The body of the \<^verbatim>\<open>if\<close> inside the \<^verbatim>\<open>for\<close> loop, once the scan has stopped at
  slot \<open>free\<close> (source lines 109 to 113): row \<open>rowNdx\<close> takes the node of the row that
  \<^verbatim>\<open>rowsWithNodes[free]\<close> names, the update callback runs, the node is moved to the
  row's offset, the old row lets go of the node, and the slot is overwritten.
  A property read on \<^verbatim>\<open>undefined\<close> or \<^verbatim>\<open>null\<close> throws a \<^verbatim>\<open>TypeError\<close>; what was
  written before the throw stays written, so the error carries the state at the throw.
\<close>

definition stealNode :: "nat \<Rightarrow> nat \<Rightarrow> 'a table \<Rightarrow> (error \<times> 'a table) + 'a table" where
  "stealNode rowNdx free s =
     (if free < length (rowsWithNodes s) \<and> rowsWithNodes s ! free < length (data s)
      then
        let src = rowsWithNodes s ! free;
            nd = row_node (data s ! src);
            s1 = s\<lparr>data := (data s)[rowNdx := (data s ! rowNdx)\<lparr>row_node := nd\<rparr>]\<rparr>;
            s2 = s1\<lparr>events := events s1 @ [UpdateRow rowNdx nd]\<rparr>
        in case nd of
             None \<Rightarrow> Inl (TypeError, s2)
           | Some k \<Rightarrow>
               let s3 = s2\<lparr>style_top := (style_top s2)(k \<mapsto> row_top (data s2 ! rowNdx))\<rparr>;
                   s4 = s3\<lparr>data := (data s3)[src := (data s3 ! src)\<lparr>row_node := None\<rparr>]\<rparr>
               in Inr (s4\<lparr>rowsWithNodes := (rowsWithNodes s4)[free := rowNdx]\<rparr>)
      else Inl (TypeError, s))"

text \<open>
  The \<^verbatim>\<open>for\<close> loop of the pass, with the cursor \<^verbatim>\<open>freeSearchNdx\<close> threaded through.
  On normal exit the loop hands back the final cursor with the state.
\<close>

function recycle ::
  "nat \<Rightarrow> nat \<Rightarrow> nat \<Rightarrow> nat \<Rightarrow> 'a table \<Rightarrow> (error \<times> 'a table) + (nat \<times> 'a table)" where
  "recycle rowNdx fillStart fillEnd freeSearchNdx s =
     (if rowNdx < fillEnd then
        if length (data s) \<le> rowNdx then Inl (TypeError, s)
        else if row_node (data s ! rowNdx) = None then
          let free = scan_free (rowsWithNodes s) fillStart fillEnd freeSearchNdx
          in case stealNode rowNdx free s of
               Inl err \<Rightarrow> Inl err
             | Inr s' \<Rightarrow> recycle (Suc rowNdx) fillStart fillEnd (Suc free) s'
        else recycle (Suc rowNdx) fillStart fillEnd freeSearchNdx s
      else Inr (freeSearchNdx, s))"
  by pat_completeness auto
termination
  by (relation "measure (\<lambda>(rowNdx, fillStart, fillEnd, freeSearchNdx, s). fillEnd - rowNdx)")
     auto

definition updateVisibleRows ::
  "'a table \<Rightarrow> rat \<Rightarrow> rat \<Rightarrow> (error \<times> 'a table) + 'a table" where
  "updateVisibleRows s scrollTop clientHeight =
     (if isUpdating s then Inr s
      else
        let s1 = s\<lparr>isUpdating := True\<rparr>;
            midNdx = sortedIndex (data s1) (screenMidpoint scrollTop clientHeight) row_top;
            freeSearchNdx = 0;
            fillStart = fillStart_of s1 midNdx;
            fillEnd = fillEnd_of s1 midNdx
        in if lastMidNdx s1 = Some midNdx then Inr (s1\<lparr>isUpdating := False\<rparr>)
           else
             case recycle fillStart fillStart fillEnd freeSearchNdx (s1\<lparr>lastMidNdx := Some midNdx\<rparr>) of
               Inl (e, s') \<Rightarrow> Inl (e, s')
             | Inr (cursor, s') \<Rightarrow> Inr (s'\<lparr>isUpdating := False\<rparr>))"

section \<open>Observations used in the statements\<close>

text \<open>The state a call leaves behind, whether it returned or threw, and how it ended.\<close>

definition outcome :: "(error \<times> 'a table) + 'a table \<Rightarrow> 'a table" where
  "outcome res = (case res of Inl (e, s') \<Rightarrow> s' | Inr s' \<Rightarrow> s')"

definition returned :: "(error \<times> 'a table) + 'a table \<Rightarrow> bool" where
  "returned res = (case res of Inl err \<Rightarrow> False | Inr s' \<Rightarrow> True)"

definition thrown :: "(error \<times> 'a table) + 'a table \<Rightarrow> error option" where
  "thrown res = (case res of Inl (e, s') \<Rightarrow> Some e | Inr s' \<Rightarrow> None)"

text \<open>The value of the local \<^verbatim>\<open>midNdx\<close> in a notification.\<close>

definition midNdx_of :: "'a table \<Rightarrow> rat \<Rightarrow> rat \<Rightarrow> nat" where
  "midNdx_of s scrollTop clientHeight =
     sortedIndex (data s) (screenMidpoint scrollTop clientHeight) row_top"

text \<open>The row indices whose \<^verbatim>\<open>__node\<close> is set, in index order.\<close>

definition assignedRows :: "'a table \<Rightarrow> nat list" where
  "assignedRows s = filter (\<lambda>i. row_node (data s ! i) \<noteq> None) [0..<length (data s)]"

text \<open>The nodes the rows refer to, one entry per referring row, in index order.\<close>

definition assignedNodes :: "'a table \<Rightarrow> nat list" where
  "assignedNodes s = map (\<lambda>i. the (row_node (data s ! i))) (assignedRows s)"

text \<open>
  Window rows without a node, and the entries of \<^verbatim>\<open>rowsWithNodes\<close> at which the scan
  of a pass over \<open>[fillStart, fillEnd)\<close> stops.
\<close>

definition missingRows :: "'a table \<Rightarrow> nat \<Rightarrow> nat \<Rightarrow> nat list" where
  "missingRows s fillStart fillEnd =
     filter (\<lambda>i. row_node (data s ! i) = None) [fillStart..<fillEnd]"

definition stealableSlots :: "'a table \<Rightarrow> nat \<Rightarrow> nat \<Rightarrow> nat list" where
  "stealableSlots s fillStart fillEnd =
     filter (\<lambda>v. \<not> (fillStart < v \<and> v < fillEnd)) (rowsWithNodes s)"

text \<open>
  The pool invariant: \<^verbatim>\<open>rowsWithNodes\<close> lists, without repetition, exactly the rows that
  hold a node; no node is held by two rows; and the pool has the size \<^verbatim>\<open>reset\<close> built.
\<close>

definition pool_inv :: "'a table \<Rightarrow> bool" where
  "pool_inv s \<longleftrightarrow>
     distinct (rowsWithNodes s)
     \<and> (\<forall>j \<in> set (rowsWithNodes s). j < length (data s))
     \<and> (\<forall>i < length (data s). (row_node (data s ! i) \<noteq> None) = (i \<in> set (rowsWithNodes s)))
     \<and> (\<forall>i < length (data s). \<forall>j < length (data s).
           row_node (data s ! i) \<noteq> None \<and> row_node (data s ! i) = row_node (data s ! j) \<longrightarrow> i = j)
     \<and> length (rowsWithNodes s) = min (availableNodes s) (length (data s))"

text \<open>What a pass leaves alone: the configuration, the container, and every row's payload and offset.\<close>

definition same_config :: "'a table \<Rightarrow> 'a table \<Rightarrow> bool" where
  "same_config s s' \<longleftrightarrow>
     heightFn s' = heightFn s \<and> availableNodes s' = availableNodes s
     \<and> visibleHeight s' = visibleHeight s \<and> yPosition s' = yPosition s
     \<and> totalHeight s' = totalHeight s \<and> lastMidNdx s' = lastMidNdx s
     \<and> isUpdating s' = isUpdating s \<and> bottomEl s' = bottomEl s
     \<and> el_children s' = el_children s \<and> el_attached s' = el_attached s
     \<and> el_height s' = el_height s \<and> el_listeners s' = el_listeners s
     \<and> next_node s' = next_node s
     \<and> map row_top (data s') = map row_top (data s)
     \<and> map payload (data s') = map payload (data s)"

text \<open>
  The handler as the spec words its scan: started from a cursor handed in from outside
  the pass. The source's handler is this one at cursor \<open>0\<close>.
\<close>

definition updateVisibleRows_from ::
  "nat \<Rightarrow> 'a table \<Rightarrow> rat \<Rightarrow> rat \<Rightarrow> (error \<times> 'a table) + 'a table" where
  "updateVisibleRows_from cursor0 s scrollTop clientHeight =
     (if isUpdating s then Inr s
      else
        let s1 = s\<lparr>isUpdating := True\<rparr>;
            midNdx = sortedIndex (data s1) (screenMidpoint scrollTop clientHeight) row_top;
            fillStart = fillStart_of s1 midNdx;
            fillEnd = fillEnd_of s1 midNdx
        in if lastMidNdx s1 = Some midNdx then Inr (s1\<lparr>isUpdating := False\<rparr>)
           else
             case recycle fillStart fillStart fillEnd cursor0 (s1\<lparr>lastMidNdx := Some midNdx\<rparr>) of
               Inl (e, s') \<Rightarrow> Inl (e, s')
             | Inr (cursor, s') \<Rightarrow> Inr (s'\<lparr>isUpdating := False\<rparr>))"

text \<open>The cursor a pass ends with (\<open>None\<close> when the pass is skipped or throws).\<close>

definition final_cursor :: "'a table \<Rightarrow> rat \<Rightarrow> rat \<Rightarrow> nat option" where
  "final_cursor s scrollTop clientHeight =
     (if isUpdating s then None
      else
        let s1 = s\<lparr>isUpdating := True\<rparr>;
            midNdx = sortedIndex (data s1) (screenMidpoint scrollTop clientHeight) row_top;
            fillStart = fillStart_of s1 midNdx;
            fillEnd = fillEnd_of s1 midNdx
        in if lastMidNdx s1 = Some midNdx then None
           else
             case recycle fillStart fillStart fillEnd 0 (s1\<lparr>lastMidNdx := Some midNdx\<rparr>) of
               Inl err \<Rightarrow> None
             | Inr (cursor, s') \<Rightarrow> Some cursor)"

text \<open>The state \<^verbatim>\<open>reset\<close> hands to its build loop on a container without children.\<close>

definition reset_cleared :: "'a table \<Rightarrow> 'a table" where
  "reset_cleared s =
     (let c = calculateHeights_loop 0 (s\<lparr>yPosition := 0, totalHeight := 0\<rparr>)
      in c\<lparr>el_height := Some (visibleHeight s),
           data := map (\<lambda>r. r\<lparr>row_node := None\<rparr>) (data c),
           rowsWithNodes := []\<rparr>)"

section \<open>Example tables\<close>

text \<open>The defaults of the source, and tables built by the constructor on an empty container.\<close>

definition default_heightFn :: "'a row \<Rightarrow> rat" where
  "default_heightFn r = 10"

definition example_table :: "nat \<Rightarrow> nat \<Rightarrow> unit table" where
  "example_table rowCount avail =
     the (ScrollableTable [] (replicate rowCount ()) default_heightFn avail 400)"

section \<open>Properties of the offset index\<close>

declare calculateHeights_loop.simps [simp del]

lemma chl_frame:
  "length (data (calculateHeights_loop k s)) = length (data s)
   \<and> heightFn (calculateHeights_loop k s) = heightFn s
   \<and> rowsWithNodes (calculateHeights_loop k s) = rowsWithNodes s
   \<and> map row_node (data (calculateHeights_loop k s)) = map row_node (data s)
   \<and> map payload (data (calculateHeights_loop k s)) = map payload (data s)"
proof (induction k s rule: calculateHeights_loop.induct)
  case (1 ndx s)
  show ?case
  proof (cases "ndx < length (data s)")
    case True
    with "1" show ?thesis
      by (subst (1 2 3 4 5) calculateHeights_loop.simps) (simp add: Let_def map_update list_update_same_conv)
  next
    case False
    then show ?thesis by (simp add: calculateHeights_loop.simps)
  qed
qed

lemma chl_below:
  "i < k \<Longrightarrow> data (calculateHeights_loop k s) ! i = data s ! i"
proof (induction k s rule: calculateHeights_loop.induct)
  case (1 ndx s)
  show ?case
  proof (cases "ndx < length (data s)")
    case True
    with "1" show ?thesis
      by (subst calculateHeights_loop.simps) (simp add: Let_def)
  next
    case False
    then show ?thesis by (simp add: calculateHeights_loop.simps)
  qed
qed

lemma chl_top:
  "k \<le> i \<Longrightarrow> i < length (data s) \<Longrightarrow>
   row_top (data (calculateHeights_loop k s) ! i) =
     totalHeight s + (\<Sum>j = k..<i. heightFn s (data (calculateHeights_loop k s) ! j))"
proof (induction k s rule: calculateHeights_loop.induct)
  case (1 ndx s)
  let ?r = "(data s ! ndx)\<lparr>row_top := totalHeight s\<rparr>"
  let ?s2 = "s\<lparr>data := (data s)[ndx := ?r], totalHeight := totalHeight s + heightFn s ?r\<rparr>"
  from "1.prems" have lt: "ndx < length (data s)" by simp
  have unf: "calculateHeights_loop ndx s = calculateHeights_loop (Suc ndx) ?s2"
    using lt by (subst calculateHeights_loop.simps) (simp add: Let_def)
  show ?case
  proof (cases "i = ndx")
    case True
    then show ?thesis using lt by (simp add: unf chl_below)
  next
    case False
    with "1.prems" have le: "Suc ndx \<le> i" by simp
    have ih: "row_top (data (calculateHeights_loop (Suc ndx) ?s2) ! i) =
       totalHeight ?s2 + (\<Sum>j = Suc ndx..<i. heightFn ?s2 (data (calculateHeights_loop (Suc ndx) ?s2) ! j))"
      using "1.IH"[OF lt refl refl le] "1.prems" by simp
    have at: "data (calculateHeights_loop (Suc ndx) ?s2) ! ndx = ?r"
      using lt by (simp add: chl_below)
    show ?thesis using ih le at
      by (simp add: unf sum.atLeast_Suc_lessThan[of ndx i] add.assoc)
  qed
qed

lemma chl_total:
  "k \<le> length (data s) \<Longrightarrow>
   totalHeight (calculateHeights_loop k s) =
     totalHeight s + (\<Sum>j = k..<length (data s). heightFn s (data (calculateHeights_loop k s) ! j))"
proof (induction k s rule: calculateHeights_loop.induct)
  case (1 ndx s)
  let ?r = "(data s ! ndx)\<lparr>row_top := totalHeight s\<rparr>"
  let ?s2 = "s\<lparr>data := (data s)[ndx := ?r], totalHeight := totalHeight s + heightFn s ?r\<rparr>"
  show ?case
  proof (cases "ndx < length (data s)")
    case lt: True
    have unf: "calculateHeights_loop ndx s = calculateHeights_loop (Suc ndx) ?s2"
      using lt by (subst calculateHeights_loop.simps) (simp add: Let_def)
    have ih: "totalHeight (calculateHeights_loop (Suc ndx) ?s2) =
       totalHeight ?s2 + (\<Sum>j = Suc ndx..<length (data s). heightFn ?s2 (data (calculateHeights_loop (Suc ndx) ?s2) ! j))"
      using "1.IH"[OF lt refl refl] lt by simp
    have at: "data (calculateHeights_loop (Suc ndx) ?s2) ! ndx = ?r"
      using lt by (simp add: chl_below)
    show ?thesis using ih lt at
      by (simp add: unf sum.atLeast_Suc_lessThan[of ndx "length (data s)"] add.assoc)
  next
    case False
    with "1.prems" show ?thesis by (simp add: calculateHeights_loop.simps)
  qed
qed

section \<open>Properties of the lifecycle loops\<close>

declare buildRows.simps [simp del]

lemma chl_fields:
  "calculateHeights_loop k s =
     s\<lparr>data := data (calculateHeights_loop k s), totalHeight := totalHeight (calculateHeights_loop k s)\<rparr>"
proof (induction k s rule: calculateHeights_loop.induct)
  case (1 ndx s)
  show ?case
  proof (cases "ndx < length (data s)")
    case True
    let ?r = "(data s ! ndx)\<lparr>row_top := totalHeight s\<rparr>"
    let ?s2 = "s\<lparr>data := (data s)[ndx := ?r], totalHeight := totalHeight s + heightFn s ?r\<rparr>"
    have unf: "calculateHeights_loop ndx s = calculateHeights_loop (Suc ndx) ?s2"
      using True by (subst calculateHeights_loop.simps) (simp add: Let_def)
    have "calculateHeights_loop (Suc ndx) ?s2 =
        ?s2\<lparr>data := data (calculateHeights_loop (Suc ndx) ?s2),
             totalHeight := totalHeight (calculateHeights_loop (Suc ndx) ?s2)\<rparr>"
      using "1.IH"[OF True refl refl] by simp
    then show ?thesis unfolding unf by simp
  next
    case False
    then show ?thesis by (simp add: calculateHeights_loop.simps)
  qed
qed

lemma clearChildren_empty: "el_children s = [] \<Longrightarrow> clearChildren s = Some s"
  by (subst clearChildren.simps) simp

lemma clearChildren_Some: "clearChildren s = Some s' \<Longrightarrow> el_children s = []"
proof (induction rule: clearChildren.raw_induct[rotated 1, consumes 1])
  case (1 cc s s')
  show ?case
  proof (cases "el_children s")
    case Nil
    then show ?thesis by simp
  next
    case (Cons a list)
    with "1"(2) have "cc (s\<lparr>el_attached := False\<rparr>) = Some s'" by simp
    from "1"(1)[OF this] Cons show ?thesis by simp
  qed
qed

lemma clearChildren_diverges: "el_children s \<noteq> [] \<Longrightarrow> clearChildren s = None"
  using clearChildren_Some[of s] by (cases "clearChildren s") auto

lemma buildRows_step:
  "ndx < min (availableNodes s) (length (data s)) \<Longrightarrow>
   buildRows ndx s = buildRows (Suc ndx)
     (s\<lparr>next_node := Suc (next_node s),
        events := events s @ [BuildRow ndx (next_node s)],
        style_top := (style_top s)(next_node s \<mapsto> row_top (data s ! ndx)),
        el_children := el_children s @ [next_node s],
        rowsWithNodes := rowsWithNodes s @ [ndx],
        data := (data s)[ndx := (data s ! ndx)\<lparr>row_node := Some (next_node s)\<rparr>]\<rparr>)"
  by (subst buildRows.simps) (simp add: Let_def)

lemma buildRows_stop:
  "\<not> ndx < min (availableNodes s) (length (data s)) \<Longrightarrow> buildRows ndx s = s"
  by (subst buildRows.simps) (simp only: if_False)

lemma buildRows_fields:
  "buildRows k s =
     s\<lparr>next_node := next_node (buildRows k s), events := events (buildRows k s),
       style_top := style_top (buildRows k s), el_children := el_children (buildRows k s),
       rowsWithNodes := rowsWithNodes (buildRows k s), data := data (buildRows k s)\<rparr>"
proof (induction k s rule: buildRows.induct)
  case (1 ndx s)
  show ?case
  proof (cases "ndx < min (availableNodes s) (length (data s))")
    case True
    show ?thesis
      using "1.IH"[OF True refl refl refl refl refl refl]
      unfolding buildRows_step[OF True] Let_def by simp
  next
    case False
    then show ?thesis by (simp add: buildRows_stop)
  qed
qed

lemma buildRows_result:
  assumes "k \<le> min (availableNodes s) (length (data s))"
  defines "m \<equiv> min (availableNodes s) (length (data s))"
  shows "length (data (buildRows k s)) = length (data s)
    \<and> rowsWithNodes (buildRows k s) = rowsWithNodes s @ [k..<m]
    \<and> next_node (buildRows k s) = next_node s + (m - k)
    \<and> events (buildRows k s) = events s @ map (\<lambda>i. BuildRow i (next_node s + (i - k))) [k..<m]
    \<and> el_children (buildRows k s) = el_children s @ map (\<lambda>i. next_node s + (i - k)) [k..<m]
    \<and> (\<forall>i<length (data s). data (buildRows k s) ! i =
           (if k \<le> i \<and> i < m then (data s ! i)\<lparr>row_node := Some (next_node s + (i - k))\<rparr>
            else data s ! i))
    \<and> (\<forall>x. style_top (buildRows k s) x =
           (if next_node s \<le> x \<and> x < next_node s + (m - k)
            then Some (row_top (data s ! (k + (x - next_node s)))) else style_top s x))"
  using assms(1) unfolding m_def
proof (induction k s rule: buildRows.induct)
  case (1 ndx s)
  let ?m = "min (availableNodes s) (length (data s))"
  {
    assume lt: "ndx < ?m"
    let ?s2 = "s\<lparr>next_node := Suc (next_node s),
        events := events s @ [BuildRow ndx (next_node s)],
        style_top := (style_top s)(next_node s \<mapsto> row_top (data s ! ndx)),
        el_children := el_children s @ [next_node s],
        rowsWithNodes := rowsWithNodes s @ [ndx],
        data := (data s)[ndx := (data s ! ndx)\<lparr>row_node := Some (next_node s)\<rparr>]\<rparr>"
    note ihc = "1.IH"[OF lt refl refl refl refl refl refl]
    note ih = ihc[THEN conjunct1] ihc[THEN conjunct2, THEN conjunct1]
      ihc[THEN conjunct2, THEN conjunct2, THEN conjunct1]
      ihc[THEN conjunct2, THEN conjunct2, THEN conjunct2, THEN conjunct1]
      ihc[THEN conjunct2, THEN conjunct2, THEN conjunct2, THEN conjunct2, THEN conjunct1]
      ihc[THEN conjunct2, THEN conjunct2, THEN conjunct2, THEN conjunct2, THEN conjunct2, THEN conjunct1]
      ihc[THEN conjunct2, THEN conjunct2, THEN conjunct2, THEN conjunct2, THEN conjunct2, THEN conjunct2]
    have upt: "[ndx..<?m] = ndx # [Suc ndx..<?m]" using lt by (simp add: upt_conv_Cons)
    have "length (data (buildRows ndx s)) = length (data s)"
      using ih(1) lt by (simp add: buildRows_step[OF lt])
    moreover have "rowsWithNodes (buildRows ndx s) = rowsWithNodes s @ [ndx..<?m]"
      using ih(2) lt by (simp add: buildRows_step[OF lt] upt)
    moreover have "next_node (buildRows ndx s) = next_node s + (?m - ndx)"
      using ih(3) lt by (simp add: buildRows_step[OF lt]) arith
    moreover have "events (buildRows ndx s) =
        events s @ map (\<lambda>i. BuildRow i (next_node s + (i - ndx))) [ndx..<?m]"
      using ih(4) lt by (auto simp: buildRows_step[OF lt] upt)
    moreover have "el_children (buildRows ndx s) =
        el_children s @ map (\<lambda>i. next_node s + (i - ndx)) [ndx..<?m]"
      using ih(5) lt by (auto simp: buildRows_step[OF lt] upt)
    moreover have "\<forall>i<length (data s). data (buildRows ndx s) ! i =
           (if ndx \<le> i \<and> i < ?m then (data s ! i)\<lparr>row_node := Some (next_node s + (i - ndx))\<rparr>
            else data s ! i)"
    proof (intro allI impI)
      fix i assume i: "i < length (data s)"
      show "data (buildRows ndx s) ! i =
           (if ndx \<le> i \<and> i < ?m then (data s ! i)\<lparr>row_node := Some (next_node s + (i - ndx))\<rparr>
            else data s ! i)"
        using ih(6)[rule_format, of i] i lt
        by (cases "i = ndx") (auto simp: buildRows_step[OF lt] Suc_diff_le)
    qed
    moreover have "\<forall>x. style_top (buildRows ndx s) x =
           (if next_node s \<le> x \<and> x < next_node s + (?m - ndx)
            then Some (row_top (data s ! (ndx + (x - next_node s)))) else style_top s x)"
    proof
      fix x
      show "style_top (buildRows ndx s) x =
           (if next_node s \<le> x \<and> x < next_node s + (?m - ndx)
            then Some (row_top (data s ! (ndx + (x - next_node s)))) else style_top s x)"
      proof (cases "x = next_node s")
        case True
        then show ?thesis using ih(7)[rule_format, of x] lt
          by (auto simp: buildRows_step[OF lt])
      next
        case False
        have "Suc (next_node s) \<le> x \<Longrightarrow> ndx + (x - next_node s) = Suc ndx + (x - Suc (next_node s))"
          by simp
        moreover have "Suc (next_node s) \<le> x \<Longrightarrow> ndx + (x - next_node s) \<noteq> ndx" by simp
        ultimately show ?thesis using ih(7)[rule_format, of x] lt False
          by (auto simp: buildRows_step[OF lt] simp del: add_Suc)
      qed
    qed
    ultimately have ?case by blast
  }
  moreover
  {
    assume ge: "\<not> ndx < ?m"
    with "1.prems" have "ndx = ?m" by arith
    then have ?case using ge by (auto simp: buildRows_stop)
  }
  ultimately show ?case by blast
qed

section \<open>Properties of the window locator\<close>

declare sortedIndex_loop.simps [simp del]

lemma sortedIndex_loop_bounds:
  "low \<le> high \<Longrightarrow> low \<le> sortedIndex_loop xs v f low high \<and> sortedIndex_loop xs v f low high \<le> high"
proof (induction xs v f low high rule: sortedIndex_loop.induct)
  case (1 array v iteratee low high)
  show ?case
  proof (cases "low < high")
    case True
    have mid: "low \<le> (low + high) div 2" "Suc ((low + high) div 2) \<le> high" using True by auto
    show ?thesis
      using "1.IH"(1)[OF True refl] "1.IH"(2)[OF True refl] mid True
      by (subst (1 2) sortedIndex_loop.simps) (auto simp: Let_def)
  next
    case False
    with "1.prems" show ?thesis by (simp add: sortedIndex_loop.simps)
  qed
qed

lemma sortedIndex_loop_lower:
  assumes "sorted (map f xs)" "high \<le> length xs" "low \<le> high"
    and "\<forall>i<low. f (xs ! i) < v"
  shows "\<forall>i<sortedIndex_loop xs v f low high. f (xs ! i) < v"
  using assms
proof (induction xs v f low high rule: sortedIndex_loop.induct)
  case (1 array v iteratee low high)
  show ?case
  proof (cases "low < high")
    case True
    let ?mid = "(low + high) div 2"
    have mid: "low \<le> ?mid" "?mid < high" using True by auto
    show ?thesis
    proof (cases "iteratee (array ! ?mid) < v")
      case lt: True
      have "\<forall>i<Suc ?mid. iteratee (array ! i) < v"
      proof (intro allI impI)
        fix i assume "i < Suc ?mid"
        then have "i \<le> ?mid" by simp
        moreover have "?mid < length array" using mid "1.prems" by simp
        ultimately have "map iteratee array ! i \<le> map iteratee array ! ?mid"
          using "1.prems"(1) by (simp add: sorted_iff_nth_mono del: nth_map)
        then show "iteratee (array ! i) < v" using lt \<open>i \<le> ?mid\<close> \<open>?mid < length array\<close> by simp
      qed
      then have "\<forall>i<sortedIndex_loop array v iteratee (Suc ?mid) high. iteratee (array ! i) < v"
        using "1.IH"(1)[OF True refl lt] "1.prems" mid by simp
      then show ?thesis using True lt
        by (subst sortedIndex_loop.simps) (simp add: Let_def)
    next
      case ge: False
      have "\<forall>i<sortedIndex_loop array v iteratee low ?mid. iteratee (array ! i) < v"
        using "1.IH"(2)[OF True refl ge] "1.prems" mid by simp
      then show ?thesis using True ge
        by (subst sortedIndex_loop.simps) (simp add: Let_def)
    qed
  next
    case False
    with "1.prems" have "low = high" by simp
    with "1.prems" show ?thesis by (simp add: sortedIndex_loop.simps)
  qed
qed

lemma sortedIndex_loop_upper:
  assumes "sorted (map f xs)" "high \<le> length xs" "low \<le> high"
    and "\<forall>i. high \<le> i \<and> i < length xs \<longrightarrow> v \<le> f (xs ! i)"
  shows "\<forall>i. sortedIndex_loop xs v f low high \<le> i \<and> i < length xs \<longrightarrow> v \<le> f (xs ! i)"
  using assms
proof (induction xs v f low high rule: sortedIndex_loop.induct)
  case (1 array v iteratee low high)
  show ?case
  proof (cases "low < high")
    case True
    let ?mid = "(low + high) div 2"
    have mid: "low \<le> ?mid" "?mid < high" using True by auto
    show ?thesis
    proof (cases "iteratee (array ! ?mid) < v")
      case lt: True
      have "\<forall>i. sortedIndex_loop array v iteratee (Suc ?mid) high \<le> i \<and> i < length array \<longrightarrow> v \<le> iteratee (array ! i)"
        using "1.IH"(1)[OF True refl lt] "1.prems" mid by simp
      then show ?thesis using True lt
        by (subst sortedIndex_loop.simps) (simp add: Let_def)
    next
      case ge: False
      have "\<forall>i. ?mid \<le> i \<and> i < length array \<longrightarrow> v \<le> iteratee (array ! i)"
      proof (intro allI impI)
        fix i assume a: "?mid \<le> i \<and> i < length array"
        then have "map iteratee array ! ?mid \<le> map iteratee array ! i"
          using "1.prems"(1) by (simp add: sorted_iff_nth_mono del: nth_map)
        then show "v \<le> iteratee (array ! i)" using ge a by simp
      qed
      then have "\<forall>i. sortedIndex_loop array v iteratee low ?mid \<le> i \<and> i < length array \<longrightarrow> v \<le> iteratee (array ! i)"
        using "1.IH"(2)[OF True refl ge] "1.prems" mid by simp
      then show ?thesis using True ge
        by (subst sortedIndex_loop.simps) (simp add: Let_def)
    qed
  next
    case False
    with "1.prems" show ?thesis by (simp add: sortedIndex_loop.simps)
  qed
qed

lemma sortedIndex_lower_bound:
  assumes "sorted (map f xs)"
  shows "sortedIndex xs v f \<le> length xs"
    and "\<forall>i<sortedIndex xs v f. f (xs ! i) < v"
    and "\<forall>i. sortedIndex xs v f \<le> i \<and> i < length xs \<longrightarrow> v \<le> f (xs ! i)"
  using sortedIndex_loop_bounds[of 0 "length xs" xs v f]
    sortedIndex_loop_lower[OF assms, of "length xs" 0 v]
    sortedIndex_loop_upper[OF assms, of "length xs" 0 v]
  by (simp_all add: sortedIndex_def)

lemma sortedIndex_unique:
  assumes "sorted (map f xs)" "r \<le> length xs"
    and "\<forall>i<r. f (xs ! i) < v"
    and "\<forall>i. r \<le> i \<and> i < length xs \<longrightarrow> v \<le> f (xs ! i)"
  shows "sortedIndex xs v f = r"
proof -
  let ?m = "sortedIndex xs v f"
  note lb = sortedIndex_lower_bound[OF assms(1), of v]
  have "\<not> ?m < r"
  proof
    assume "?m < r"
    then have "f (xs ! ?m) < v" "v \<le> f (xs ! ?m)" using assms lb by auto
    then show False by simp
  qed
  moreover have "\<not> r < ?m"
  proof
    assume "r < ?m"
    then have "f (xs ! r) < v" "v \<le> f (xs ! r)" using assms lb by auto
    then show False by simp
  qed
  ultimately show ?thesis by simp
qed

lemma halfNodes_eq: "halfNodes s = int ((availableNodes s + 1) div 2)"
proof (cases "even (availableNodes s)")
  case True
  then obtain k where k: "availableNodes s = 2 * k" by (auto elim: evenE)
  have "rat_of_nat (availableNodes s) / 2 = of_int (int k)" by (simp add: k)
  then have "\<lceil>rat_of_nat (availableNodes s) / 2\<rceil> = int k" by (simp only: ceiling_of_int)
  then show ?thesis by (simp add: halfNodes_def k)
next
  case False
  then obtain k where k: "availableNodes s = 2 * k + 1" by (auto elim: oddE)
  have eq: "rat_of_nat (availableNodes s) / 2 = of_int (int k) + 1 / 2" by (simp add: k add_divide_distrib)
  have "\<lceil>rat_of_nat (availableNodes s) / 2\<rceil> = int k + 1"
    unfolding eq by (rule ceiling_eq) simp_all
  then show ?thesis by (simp add: halfNodes_def k)
qed

section \<open>What \<^verbatim>\<open>reset\<close> builds\<close>

lemma chl_unchanged [simp]:
  "heightFn (calculateHeights_loop k s) = heightFn s"
  "availableNodes (calculateHeights_loop k s) = availableNodes s"
  "visibleHeight (calculateHeights_loop k s) = visibleHeight s"
  "rowsWithNodes (calculateHeights_loop k s) = rowsWithNodes s"
  "yPosition (calculateHeights_loop k s) = yPosition s"
  "lastMidNdx (calculateHeights_loop k s) = lastMidNdx s"
  "isUpdating (calculateHeights_loop k s) = isUpdating s"
  "bottomEl (calculateHeights_loop k s) = bottomEl s"
  "el_children (calculateHeights_loop k s) = el_children s"
  "el_attached (calculateHeights_loop k s) = el_attached s"
  "el_height (calculateHeights_loop k s) = el_height s"
  "el_listeners (calculateHeights_loop k s) = el_listeners s"
  "style_top (calculateHeights_loop k s) = style_top s"
  "next_node (calculateHeights_loop k s) = next_node s"
  "events (calculateHeights_loop k s) = events s"
  by (subst chl_fields, simp)+

lemma chl_length [simp]: "length (data (calculateHeights_loop k s)) = length (data s)"
  using chl_frame[of k s] by simp

lemma chl_node:
  "i < length (data s) \<Longrightarrow> row_node (data (calculateHeights_loop k s) ! i) = row_node (data s ! i)"
  using chl_frame[of k s] by (metis chl_length nth_map)

lemma chl_payload:
  "i < length (data s) \<Longrightarrow> payload (data (calculateHeights_loop k s) ! i) = payload (data s ! i)"
  using chl_frame[of k s] by (metis chl_length nth_map)

lemma buildRows_unchanged [simp]:
  "heightFn (buildRows k s) = heightFn s"
  "availableNodes (buildRows k s) = availableNodes s"
  "visibleHeight (buildRows k s) = visibleHeight s"
  "yPosition (buildRows k s) = yPosition s"
  "totalHeight (buildRows k s) = totalHeight s"
  "lastMidNdx (buildRows k s) = lastMidNdx s"
  "isUpdating (buildRows k s) = isUpdating s"
  "bottomEl (buildRows k s) = bottomEl s"
  "el_attached (buildRows k s) = el_attached s"
  "el_height (buildRows k s) = el_height s"
  "el_listeners (buildRows k s) = el_listeners s"
  by (subst buildRows_fields, simp)+

lemma reset_returns:
  assumes "el_children s = []"
  shows "reset s =
     Some ((addBottomEl (buildRows 0 (reset_cleared s)))
             \<lparr>el_listeners := Suc (el_listeners s)\<rparr>)"
proof -
  let ?c = "calculateHeights_loop 0 (s\<lparr>yPosition := 0, totalHeight := 0\<rparr>)"
  have sh: "setHeight (s\<lparr>yPosition := 0\<rparr>) = ?c\<lparr>el_height := Some (visibleHeight s)\<rparr>"
    by (simp add: setHeight_def calculateHeights_def Let_def)
  have cc: "clearChildren (?c\<lparr>el_height := Some (visibleHeight s)\<rparr>)
      = Some (?c\<lparr>el_height := Some (visibleHeight s)\<rparr>)"
    using assms by (intro clearChildren_empty) simp
  show ?thesis
    unfolding reset_def Let_def sh cc
    by (simp add: reset_cleared_def Let_def addBottomEl_def)
qed

lemma reset_diverges: "el_children s \<noteq> [] \<Longrightarrow> reset s = None"
proof -
  assume a: "el_children s \<noteq> []"
  let ?c = "calculateHeights_loop 0 (s\<lparr>yPosition := 0, totalHeight := 0\<rparr>)"
  have sh: "setHeight (s\<lparr>yPosition := 0\<rparr>) = ?c\<lparr>el_height := Some (visibleHeight s)\<rparr>"
    by (simp add: setHeight_def calculateHeights_def Let_def)
  have "clearChildren (?c\<lparr>el_height := Some (visibleHeight s)\<rparr>) = None"
    using a by (intro clearChildren_diverges) simp
  then show ?thesis unfolding reset_def Let_def sh by simp
qed

lemma reset_cleared_simps [simp]:
  "length (data (reset_cleared s)) = length (data s)"
  "availableNodes (reset_cleared s) = availableNodes s"
  "rowsWithNodes (reset_cleared s) = []"
  "next_node (reset_cleared s) = next_node s"
  "events (reset_cleared s) = events s"
  "el_children (reset_cleared s) = el_children s"
  "style_top (reset_cleared s) = style_top s"
  "lastMidNdx (reset_cleared s) = lastMidNdx s"
  "isUpdating (reset_cleared s) = isUpdating s"
  "heightFn (reset_cleared s) = heightFn s"
  "totalHeight (reset_cleared s) = totalHeight (calculateHeights_loop 0 (s\<lparr>yPosition := 0, totalHeight := 0\<rparr>))"
  by (simp_all add: reset_cleared_def Let_def)

lemma reset_cleared_row:
  "i < length (data s) \<Longrightarrow>
   data (reset_cleared s) ! i =
     (data (calculateHeights_loop 0 (s\<lparr>yPosition := 0, totalHeight := 0\<rparr>)) ! i)\<lparr>row_node := None\<rparr>"
  by (simp add: reset_cleared_def Let_def)

lemma reset_result:
  assumes "el_children s = []" and "reset s = Some s'"
  defines "m \<equiv> min (availableNodes s) (length (data s))"
  defines "c \<equiv> calculateHeights_loop 0 (s\<lparr>yPosition := 0, totalHeight := 0\<rparr>)"
  shows "length (data s') = length (data s)"
    and "rowsWithNodes s' = [0..<m]"
    and "events s' = events s @ map (\<lambda>i. BuildRow i (next_node s + i)) [0..<m]"
    and "el_children s' = map (\<lambda>i. next_node s + i) [0..<m] @ [next_node s + m]"
    and "\<forall>i<length (data s). data s' ! i =
           (data c ! i)\<lparr>row_node := (if i < m then Some (next_node s + i) else None)\<rparr>"
    and "\<forall>i<m. style_top s' (next_node s + i) = Some (row_top (data s' ! i))"
    and "bottomEl s' = Some (next_node s + m)"
    and "style_top s' (next_node s + m) = Some (totalHeight s')"
    and "totalHeight s' = totalHeight c"
    and "availableNodes s' = availableNodes s"
    and "lastMidNdx s' = lastMidNdx s"
    and "isUpdating s' = isUpdating s"
    and "el_listeners s' = Suc (el_listeners s)"
    and "heightFn s' = heightFn s"
    and "next_node s' = Suc (next_node s + m)"
proof -
  let ?b = "buildRows 0 (reset_cleared s)"
  have s': "s' = (addBottomEl ?b)\<lparr>el_listeners := Suc (el_listeners s)\<rparr>"
    using assms(1,2) by (simp add: reset_returns)
  have le: "0 \<le> min (availableNodes (reset_cleared s)) (length (data (reset_cleared s)))" by simp
  note br = buildRows_result[OF le, simplified]
  have len: "length (data ?b) = length (data s)" using br by simp
  have rwn: "rowsWithNodes ?b = [0..<m]" using br by (simp add: m_def)
  have nn: "next_node ?b = next_node s + m" using br by (simp add: m_def)
  have ev: "events ?b = events s @ map (\<lambda>i. BuildRow i (next_node s + i)) [0..<m]"
    using br by (simp add: m_def)
  have ch: "el_children ?b = map (\<lambda>i. next_node s + i) [0..<m]"
    using br assms(1) by (simp add: m_def)
  have dat: "\<forall>i<length (data s). data ?b ! i =
           (data c ! i)\<lparr>row_node := (if i < m then Some (next_node s + i) else None)\<rparr>"
    using br by (simp add: m_def c_def reset_cleared_row)
  have st: "\<forall>x. style_top ?b x =
      (if next_node s \<le> x \<and> x < next_node s + m
       then Some (row_top (data (reset_cleared s) ! (x - next_node s))) else style_top s x)"
    using br by (simp add: m_def)
  show "length (data s') = length (data s)" by (simp add: s' addBottomEl_def Let_def len)
  show "rowsWithNodes s' = [0..<m]" by (simp add: s' addBottomEl_def Let_def rwn)
  show "events s' = events s @ map (\<lambda>i. BuildRow i (next_node s + i)) [0..<m]"
    by (simp add: s' addBottomEl_def Let_def ev)
  show "el_children s' = map (\<lambda>i. next_node s + i) [0..<m] @ [next_node s + m]"
    by (simp add: s' addBottomEl_def Let_def ch nn)
  show d': "\<forall>i<length (data s). data s' ! i =
           (data c ! i)\<lparr>row_node := (if i < m then Some (next_node s + i) else None)\<rparr>"
    using dat by (simp add: s' addBottomEl_def Let_def)
  show "\<forall>i<m. style_top s' (next_node s + i) = Some (row_top (data s' ! i))"
  proof (intro allI impI)
    fix i assume i: "i < m"
    then have il: "i < length (data s)" by (simp add: m_def)
    have "style_top s' (next_node s + i) = style_top ?b (next_node s + i)"
      using i by (simp add: s' addBottomEl_def Let_def nn)
    also have "\<dots> = Some (row_top (data (reset_cleared s) ! i))"
      using st i by simp
    also have "row_top (data (reset_cleared s) ! i) = row_top (data s' ! i)"
      using d'[rule_format, OF il] il by (simp add: reset_cleared_row c_def)
    finally show "style_top s' (next_node s + i) = Some (row_top (data s' ! i))" .
  qed
  show "bottomEl s' = Some (next_node s + m)" by (simp add: s' addBottomEl_def Let_def nn)
  show "style_top s' (next_node s + m) = Some (totalHeight s')"
    by (simp add: s' addBottomEl_def Let_def nn)
  show "totalHeight s' = totalHeight c" by (simp add: s' addBottomEl_def Let_def c_def)
  show "availableNodes s' = availableNodes s" by (simp add: s' addBottomEl_def Let_def)
  show "lastMidNdx s' = lastMidNdx s" by (simp add: s' addBottomEl_def Let_def)
  show "isUpdating s' = isUpdating s" by (simp add: s' addBottomEl_def Let_def)
  show "el_listeners s' = Suc (el_listeners s)" by (simp add: s' addBottomEl_def Let_def)
  show "heightFn s' = heightFn s" by (simp add: s' addBottomEl_def Let_def)
  show "next_node s' = Suc (next_node s + m)" by (simp add: s' addBottomEl_def Let_def nn)
qed

lemma pool_inv_reset:
  assumes "el_children s = []" and "reset s = Some s'"
  shows "pool_inv s'"
proof -
  note r = reset_result[OF assms]
  let ?m = "min (availableNodes s) (length (data s))"
  have node: "\<forall>i<length (data s). row_node (data s' ! i) = (if i < ?m then Some (next_node s + i) else None)"
    using r(5) by simp
  show ?thesis
    unfolding pool_inv_def using node r(1,2,10)
    by (auto split: if_splits)
qed

section \<open>The scan and one steal\<close>

declare scan_free.simps [simp del]
declare recycle.simps [simp del]

lemma scan_free_props:
  "c \<le> scan_free rwn fs fe c
   \<and> (c \<le> length rwn \<longrightarrow> scan_free rwn fs fe c \<le> length rwn)
   \<and> (\<forall>k. c \<le> k \<and> k < scan_free rwn fs fe c \<longrightarrow> fs < rwn ! k \<and> rwn ! k < fe)
   \<and> (scan_free rwn fs fe c < length rwn \<longrightarrow>
         \<not> (fs < rwn ! scan_free rwn fs fe c \<and> rwn ! scan_free rwn fs fe c < fe))"
proof (induction rwn fs fe c rule: scan_free.induct)
  case (1 rwn fs fe c)
  show ?case
  proof (cases "c < length rwn \<and> rwn ! c > fs \<and> rwn ! c < fe")
    case True
    then have unf: "scan_free rwn fs fe c = scan_free rwn fs fe (Suc c)"
      by (subst scan_free.simps) simp
    have ih: "Suc c \<le> scan_free rwn fs fe (Suc c)
       \<and> (Suc c \<le> length rwn \<longrightarrow> scan_free rwn fs fe (Suc c) \<le> length rwn)
       \<and> (\<forall>k. Suc c \<le> k \<and> k < scan_free rwn fs fe (Suc c) \<longrightarrow> fs < rwn ! k \<and> rwn ! k < fe)
       \<and> (scan_free rwn fs fe (Suc c) < length rwn \<longrightarrow>
         \<not> (fs < rwn ! scan_free rwn fs fe (Suc c) \<and> rwn ! scan_free rwn fs fe (Suc c) < fe))"
      using "1.IH" True by simp
    have "\<forall>k. c \<le> k \<and> k < scan_free rwn fs fe (Suc c) \<longrightarrow> fs < rwn ! k \<and> rwn ! k < fe"
    proof (intro allI impI)
      fix k assume k: "c \<le> k \<and> k < scan_free rwn fs fe (Suc c)"
      show "fs < rwn ! k \<and> rwn ! k < fe"
      proof (cases "k = c")
        case True
        then show ?thesis using \<open>c < length rwn \<and> rwn ! c > fs \<and> rwn ! c < fe\<close> by simp
      next
        case False
        with k have "Suc c \<le> k \<and> k < scan_free rwn fs fe (Suc c)" by simp
        with ih show ?thesis by blast
      qed
    qed
    with ih True show ?thesis unfolding unf by auto
  next
    case False
    then have unf: "scan_free rwn fs fe c = c"
      by (subst scan_free.simps) auto
    show ?thesis unfolding unf using False by auto
  qed
qed

lemma stealNode_past_end:
  "\<not> free < length (rowsWithNodes s) \<Longrightarrow> stealNode rowNdx free s = Inl (TypeError, s)"
  by (simp add: stealNode_def)

lemma stealNode_ok:
  assumes "pool_inv s" "free < length (rowsWithNodes s)"
  shows "\<exists>k. row_node (data s ! (rowsWithNodes s ! free)) = Some k \<and>
     stealNode rowNdx free s =
       Inr (s\<lparr>data := (data s)[rowNdx := (data s ! rowNdx)\<lparr>row_node := Some k\<rparr>,
                            rowsWithNodes s ! free :=
                              ((data s)[rowNdx := (data s ! rowNdx)\<lparr>row_node := Some k\<rparr>]
                                 ! (rowsWithNodes s ! free))\<lparr>row_node := None\<rparr>],
           events := events s @ [UpdateRow rowNdx (Some k)],
           style_top := (style_top s)(k \<mapsto> row_top (((data s)[rowNdx := (data s ! rowNdx)\<lparr>row_node := Some k\<rparr>]) ! rowNdx)),
           rowsWithNodes := (rowsWithNodes s)[free := rowNdx]\<rparr>)"
proof -
  let ?src = "rowsWithNodes s ! free"
  have mem: "?src \<in> set (rowsWithNodes s)" using assms(2) by simp
  then have lt: "?src < length (data s)" using assms(1) by (simp add: pool_inv_def)
  then have "row_node (data s ! ?src) \<noteq> None" using assms(1) mem by (simp add: pool_inv_def)
  then obtain k where k: "row_node (data s ! ?src) = Some k" by auto
  show ?thesis
    using assms(2) lt k by (intro exI[of _ k]) (simp add: stealNode_def Let_def)
qed


lemma stealNode_result:
  assumes "pool_inv s" "free < length (rowsWithNodes s)"
    and "rowNdx < length (data s)" "row_node (data s ! rowNdx) = None"
  shows "\<exists>k. row_node (data s ! (rowsWithNodes s ! free)) = Some k \<and>
     stealNode rowNdx free s =
       Inr (s\<lparr>data := (data s)[rowNdx := (data s ! rowNdx)\<lparr>row_node := Some k\<rparr>,
                            rowsWithNodes s ! free := (data s ! (rowsWithNodes s ! free))\<lparr>row_node := None\<rparr>],
           events := events s @ [UpdateRow rowNdx (Some k)],
           style_top := (style_top s)(k \<mapsto> row_top (data s ! rowNdx)),
           rowsWithNodes := (rowsWithNodes s)[free := rowNdx]\<rparr>)"
proof -
  let ?src = "rowsWithNodes s ! free"
  from stealNode_ok[OF assms(1,2), of rowNdx] obtain k where
    k: "row_node (data s ! ?src) = Some k" and
    st: "stealNode rowNdx free s =
       Inr (s\<lparr>data := (data s)[rowNdx := (data s ! rowNdx)\<lparr>row_node := Some k\<rparr>,
                            ?src := ((data s)[rowNdx := (data s ! rowNdx)\<lparr>row_node := Some k\<rparr>] ! ?src)\<lparr>row_node := None\<rparr>],
           events := events s @ [UpdateRow rowNdx (Some k)],
           style_top := (style_top s)(k \<mapsto> row_top (((data s)[rowNdx := (data s ! rowNdx)\<lparr>row_node := Some k\<rparr>]) ! rowNdx)),
           rowsWithNodes := (rowsWithNodes s)[free := rowNdx]\<rparr>)"
    by blast
  have ne: "?src \<noteq> rowNdx" using k assms(4) by auto
  show ?thesis
    using k st ne assms(3) by (intro exI[of _ k]) simp
qed

lemma pool_inv_stealNode:
  assumes "pool_inv s" "free < length (rowsWithNodes s)"
    and "rowNdx < length (data s)" "row_node (data s ! rowNdx) = None"
    and "stealNode rowNdx free s = Inr s'"
  shows "pool_inv s'"
proof -
  let ?src = "rowsWithNodes s ! free"
  let ?n = "length (data s)"
  from stealNode_result[OF assms(1-4)] assms(5) obtain k where
    k: "row_node (data s ! ?src) = Some k" and
    dat: "data s' = (data s)[rowNdx := (data s ! rowNdx)\<lparr>row_node := Some k\<rparr>,
                            ?src := (data s ! ?src)\<lparr>row_node := None\<rparr>]" and
    rwn: "rowsWithNodes s' = (rowsWithNodes s)[free := rowNdx]" and
    av: "availableNodes s' = availableNodes s"
    by auto
  have inv: "distinct (rowsWithNodes s)" "\<forall>j \<in> set (rowsWithNodes s). j < ?n"
    "\<forall>i < ?n. (row_node (data s ! i) \<noteq> None) = (i \<in> set (rowsWithNodes s))"
    "\<forall>i < ?n. \<forall>j < ?n. row_node (data s ! i) \<noteq> None \<and> row_node (data s ! i) = row_node (data s ! j) \<longrightarrow> i = j"
    "length (rowsWithNodes s) = min (availableNodes s) ?n"
    using assms(1) unfolding pool_inv_def by blast+
  have src_mem: "?src \<in> set (rowsWithNodes s)" using assms(2) by simp
  have src_lt: "?src < ?n" using inv(2) src_mem by blast
  have ne: "?src \<noteq> rowNdx" using k assms(4) by auto
  have notin: "rowNdx \<notin> set (rowsWithNodes s)" using inv(3) assms(3,4) by auto
  have set': "set (rowsWithNodes s') = insert rowNdx (set (rowsWithNodes s) - {?src})"
    unfolding rwn using inv(1) assms(2) by (rule set_update_distinct)
  have node': "\<forall>i < ?n. row_node (data s' ! i) =
      (if i = ?src then None else if i = rowNdx then Some k else row_node (data s ! i))"
    using ne src_lt assms(3) by (auto simp: dat nth_list_update)
  have d1: "distinct (rowsWithNodes s')"
    unfolding rwn using inv(1) notin by (simp add: distinct_list_update)
  have d2: "\<forall>j \<in> set (rowsWithNodes s'). j < length (data s')"
    using set' inv(2) assms(3) by (auto simp: dat)
  have d3: "\<forall>i < length (data s'). (row_node (data s' ! i) \<noteq> None) = (i \<in> set (rowsWithNodes s'))"
    using node' set' inv(3) ne by (auto simp: dat)
  have uniq: "\<forall>i < ?n. row_node (data s ! i) = Some k \<longrightarrow> i = ?src"
    using inv(4) k src_lt by (metis option.distinct(1))
  have d4: "\<forall>i < length (data s'). \<forall>j < length (data s').
      row_node (data s' ! i) \<noteq> None \<and> row_node (data s' ! i) = row_node (data s' ! j) \<longrightarrow> i = j"
  proof (intro allI impI)
    fix i j
    assume i: "i < length (data s')" and j: "j < length (data s')"
      and e: "row_node (data s' ! i) \<noteq> None \<and> row_node (data s' ! i) = row_node (data s' ! j)"
    have il: "i < ?n" and jl: "j < ?n" using i j by (simp_all add: dat)
    note ni = node'[rule_format, OF il] and nj = node'[rule_format, OF jl]
    have i_src: "i \<noteq> ?src" using e ni by auto
    have j_src: "j \<noteq> ?src" using e ni nj by auto
    show "i = j"
    proof (cases "i = rowNdx")
      case True
      show ?thesis
      proof (rule ccontr)
        assume "i \<noteq> j"
        then have "row_node (data s ! j) = Some k" using e ni nj True j_src i_src by simp
        then show False using uniq jl j_src by blast
      qed
    next
      case False
      then have oi: "row_node (data s' ! i) = row_node (data s ! i)" using ni i_src by simp
      show ?thesis
      proof (cases "j = rowNdx")
        case True
        then have "row_node (data s ! i) = Some k" using e oi nj j_src by simp
        then show ?thesis using uniq il i_src by blast
      next
        case jr: False
        then have "row_node (data s' ! j) = row_node (data s ! j)" using nj j_src by simp
        with oi e inv(4) il jl show ?thesis by metis
      qed
    qed
  qed
  have d5: "length (rowsWithNodes s') = min (availableNodes s') (length (data s'))"
    using inv(5) by (simp add: rwn av dat)
  show ?thesis unfolding pool_inv_def using d1 d2 d3 d4 d5 by blast
qed

lemma map_nth_update_id: "(map f xs)[i := f (xs ! i)] = map f xs"
  by (metis list_update_id map_update)

lemma same_config_refl: "same_config s s"
  by (simp add: same_config_def)

lemma same_config_trans: "same_config s t \<Longrightarrow> same_config t u \<Longrightarrow> same_config s u"
  by (simp add: same_config_def)

lemma same_config_length: "same_config s s' \<Longrightarrow> length (data s') = length (data s)"
  unfolding same_config_def by (metis length_map)

lemma same_config_stealNode:
  assumes "pool_inv s" "free < length (rowsWithNodes s)"
    and "rowNdx < length (data s)" "row_node (data s ! rowNdx) = None"
    and "stealNode rowNdx free s = Inr s'"
  shows "same_config s s'"
proof -
  from stealNode_result[OF assms(1-4)] assms(5) obtain k where
    s': "s' = s\<lparr>data := (data s)[rowNdx := (data s ! rowNdx)\<lparr>row_node := Some k\<rparr>,
                            rowsWithNodes s ! free := (data s ! (rowsWithNodes s ! free))\<lparr>row_node := None\<rparr>],
           events := events s @ [UpdateRow rowNdx (Some k)],
           style_top := (style_top s)(k \<mapsto> row_top (data s ! rowNdx)),
           rowsWithNodes := (rowsWithNodes s)[free := rowNdx]\<rparr>"
    by auto
  show ?thesis
    unfolding same_config_def s'
    by (simp add: map_update map_nth_update_id)
qed

section \<open>The recycle loop\<close>

lemma recycle_done: "\<not> r < fe \<Longrightarrow> recycle r fs fe c s = Inr (c, s)"
  by (subst recycle.simps) simp

lemma recycle_skip:
  "r < fe \<Longrightarrow> r < length (data s) \<Longrightarrow> row_node (data s ! r) \<noteq> None \<Longrightarrow>
   recycle r fs fe c s = recycle (Suc r) fs fe c s"
  by (subst recycle.simps) auto

lemma recycle_steal:
  "r < fe \<Longrightarrow> r < length (data s) \<Longrightarrow> row_node (data s ! r) = None \<Longrightarrow>
   recycle r fs fe c s =
     (case stealNode r (scan_free (rowsWithNodes s) fs fe c) s of
        Inl err \<Rightarrow> Inl err
      | Inr s' \<Rightarrow> recycle (Suc r) fs fe (Suc (scan_free (rowsWithNodes s) fs fe c)) s')"
  by (subst recycle.simps) (simp add: Let_def)

lemma recycle_inv:
  assumes "pool_inv s" "fe \<le> length (data s)"
  shows "(\<forall>e s'. recycle r fs fe c s = Inl (e, s') \<longrightarrow>
            e = TypeError \<and> pool_inv s' \<and> same_config s s')
       \<and> (\<forall>c' s'. recycle r fs fe c s = Inr (c', s') \<longrightarrow>
            c \<le> c' \<and> pool_inv s' \<and> same_config s s')"
  using assms
proof (induction r fs fe c s rule: recycle.induct)
  case (1 r fs fe c s)
  show ?case
  proof (cases "r < fe")
    case False
    then show ?thesis using "1.prems" by (simp add: recycle_done same_config_refl)
  next
    case lt: True
    then have rn: "r < length (data s)" using "1.prems" by simp
    show ?thesis
    proof (cases "row_node (data s ! r) = None")
      case False
      have "(\<forall>e s'. recycle (Suc r) fs fe c s = Inl (e, s') \<longrightarrow>
            e = TypeError \<and> pool_inv s' \<and> same_config s s')
       \<and> (\<forall>c' s'. recycle (Suc r) fs fe c s = Inr (c', s') \<longrightarrow>
            c \<le> c' \<and> pool_inv s' \<and> same_config s s')"
        using "1.IH"(2)[OF lt _ False] rn "1.prems" by simp
      then show ?thesis by (simp add: recycle_skip[OF lt rn False])
    next
      case none: True
      let ?free = "scan_free (rowsWithNodes s) fs fe c"
      have cf: "c \<le> ?free" using scan_free_props[of c "rowsWithNodes s" fs fe] by simp
      show ?thesis
      proof (cases "?free < length (rowsWithNodes s)")
        case False
        then show ?thesis
          using "1.prems" by (simp add: recycle_steal[OF lt rn none] stealNode_past_end same_config_refl)
      next
        case fl: True
        from stealNode_result[OF "1.prems"(1) fl rn none]
        obtain s1 where st: "stealNode r ?free s = Inr s1" by blast
        have inv1: "pool_inv s1" by (rule pool_inv_stealNode[OF "1.prems"(1) fl rn none st])
        have sc1: "same_config s s1" by (rule same_config_stealNode[OF "1.prems"(1) fl rn none st])
        have len1: "fe \<le> length (data s1)" using same_config_length[OF sc1] "1.prems"(2) by simp
        have ih: "(\<forall>e s'. recycle (Suc r) fs fe (Suc ?free) s1 = Inl (e, s') \<longrightarrow>
            e = TypeError \<and> pool_inv s' \<and> same_config s1 s')
          \<and> (\<forall>c' s'. recycle (Suc r) fs fe (Suc ?free) s1 = Inr (c', s') \<longrightarrow>
            Suc ?free \<le> c' \<and> pool_inv s' \<and> same_config s1 s')"
          using "1.IH"(1)[OF lt _ none refl st inv1 len1] rn by simp
        have unf: "recycle r fs fe c s = recycle (Suc r) fs fe (Suc ?free) s1"
          by (simp add: recycle_steal[OF lt rn none] st)
        show ?thesis unfolding unf using ih cf sc1
          by (auto intro: same_config_trans)
      qed
    qed
  qed
qed


lemma filter_drop_scan_free:
  "filter (\<lambda>v. \<not> (fs < v \<and> v < fe)) (drop c rwn) =
   filter (\<lambda>v. \<not> (fs < v \<and> v < fe)) (drop (scan_free rwn fs fe c) rwn)"
proof (induction rwn fs fe c rule: scan_free.induct)
  case (1 rwn fs fe c)
  show ?case
  proof (cases "c < length rwn \<and> rwn ! c > fs \<and> rwn ! c < fe")
    case True
    then have unf: "scan_free rwn fs fe c = scan_free rwn fs fe (Suc c)"
      by (subst scan_free.simps) simp
    have "drop c rwn = rwn ! c # drop (Suc c) rwn"
      using True by (simp add: Cons_nth_drop_Suc)
    then have "filter (\<lambda>v. \<not> (fs < v \<and> v < fe)) (drop c rwn) =
        filter (\<lambda>v. \<not> (fs < v \<and> v < fe)) (drop (Suc c) rwn)"
      using True by simp
    then show ?thesis unfolding unf using "1.IH" True by simp
  next
    case False
    then have "scan_free rwn fs fe c = c" by (subst scan_free.simps) auto
    then show ?thesis by simp
  qed
qed

lemma recycle_returns_iff:
  assumes "pool_inv s" "fe \<le> length (data s)" "fs \<le> r"
  shows "(\<exists>c' s'. recycle r fs fe c s = Inr (c', s')) \<longleftrightarrow>
     length (filter (\<lambda>i. row_node (data s ! i) = None) [r..<fe])
       \<le> length (filter (\<lambda>v. \<not> (fs < v \<and> v < fe)) (drop c (rowsWithNodes s)))"
  using assms
proof (induction r fs fe c s rule: recycle.induct)
  case (1 r fs fe c s)
  let ?P = "\<lambda>v. \<not> (fs < v \<and> v < fe)"
  show ?case
  proof (cases "r < fe")
    case False
    then show ?thesis by (simp add: recycle_done)
  next
    case lt: True
    then have rn: "r < length (data s)" using "1.prems" by simp
    have upt: "[r..<fe] = r # [Suc r..<fe]" using lt by (simp add: upt_conv_Cons)
    show ?thesis
    proof (cases "row_node (data s ! r) = None")
      case False
      have "(\<exists>c' s'. recycle (Suc r) fs fe c s = Inr (c', s')) \<longleftrightarrow>
          length (filter (\<lambda>i. row_node (data s ! i) = None) [Suc r..<fe])
            \<le> length (filter ?P (drop c (rowsWithNodes s)))"
        using "1.IH"(2)[OF lt _ False] rn "1.prems" by simp
      then show ?thesis using False by (auto simp: recycle_skip[OF lt rn False] upt)
    next
      case none: True
      let ?free = "scan_free (rowsWithNodes s) fs fe c"
      have av: "filter ?P (drop c (rowsWithNodes s)) = filter ?P (drop ?free (rowsWithNodes s))"
        by (rule filter_drop_scan_free)
      show ?thesis
      proof (cases "?free < length (rowsWithNodes s)")
        case False
        then have "filter ?P (drop c (rowsWithNodes s)) = []" unfolding av by simp
        moreover have "\<not> (\<exists>c' s'. recycle r fs fe c s = Inr (c', s'))"
          using False by (simp add: recycle_steal[OF lt rn none] stealNode_past_end)
        ultimately show ?thesis using none by (simp add: upt)
      next
        case fl: True
        let ?src = "rowsWithNodes s ! ?free"
        from stealNode_result[OF "1.prems"(1) fl rn none]
        obtain k where st: "stealNode r ?free s =
           Inr (s\<lparr>data := (data s)[r := (data s ! r)\<lparr>row_node := Some k\<rparr>,
                            ?src := (data s ! ?src)\<lparr>row_node := None\<rparr>],
                events := events s @ [UpdateRow r (Some k)],
                style_top := (style_top s)(k \<mapsto> row_top (data s ! r)),
                rowsWithNodes := (rowsWithNodes s)[?free := r]\<rparr>)" (is "_ = Inr ?s1")
          by blast
        have inv1: "pool_inv ?s1" by (rule pool_inv_stealNode[OF "1.prems"(1) fl rn none st])
        have len1: "fe \<le> length (data ?s1)" using "1.prems"(2) by simp
        have ih: "(\<exists>c' s'. recycle (Suc r) fs fe (Suc ?free) ?s1 = Inr (c', s')) \<longleftrightarrow>
          length (filter (\<lambda>i. row_node (data ?s1 ! i) = None) [Suc r..<fe])
            \<le> length (filter ?P (drop (Suc ?free) (rowsWithNodes ?s1)))"
          using "1.IH"(1)[OF lt _ none refl st inv1 len1] rn "1.prems"(3) by simp
        have unf: "recycle r fs fe c s = recycle (Suc r) fs fe (Suc ?free) ?s1"
          by (simp add: recycle_steal[OF lt rn none] st)
        have stop: "?P ?src"
          using scan_free_props[of c "rowsWithNodes s" fs fe] fl by blast
        have src_out: "\<forall>i\<in>set [Suc r..<fe]. i \<noteq> ?src"
          using stop "1.prems"(3) by auto
        have need: "filter (\<lambda>i. row_node (data ?s1 ! i) = None) [Suc r..<fe]
            = filter (\<lambda>i. row_node (data s ! i) = None) [Suc r..<fe]"
        proof (rule filter_cong[OF refl])
          fix x assume "x \<in> set [Suc r..<fe]"
          then have a: "Suc r \<le> x" "x < fe" by simp_all
          then have "?src \<noteq> x" using src_out by auto
          moreover have "r \<noteq> x" using a by simp
          ultimately have "data ?s1 ! x = data s ! x" by simp
          then show "(row_node (data ?s1 ! x) = None) = (row_node (data s ! x) = None)" by simp
        qed
        have "drop ?free (rowsWithNodes s) = ?src # drop (Suc ?free) (rowsWithNodes s)"
          using fl by (simp add: Cons_nth_drop_Suc)
        then have avail: "length (filter ?P (drop c (rowsWithNodes s)))
            = Suc (length (filter ?P (drop (Suc ?free) (rowsWithNodes s))))"
          unfolding av using stop by simp
        have drop1: "drop (Suc ?free) (rowsWithNodes ?s1) = drop (Suc ?free) (rowsWithNodes s)"
          by simp
        show ?thesis
          unfolding unf ih need drop1 avail using none by (simp add: upt)
      qed
    qed
  qed
qed

lemma recycle_cursor_mono:
  "recycle r fs fe c s = Inr (c', s') \<Longrightarrow> c \<le> c'"
proof (induction r fs fe c s rule: recycle.induct)
  case (1 r fs fe c s)
  show ?case
  proof (cases "r < fe")
    case False
    with "1.prems" show ?thesis by (simp add: recycle_done)
  next
    case lt: True
    show ?thesis
    proof (cases "length (data s) \<le> r")
      case True
      with lt "1.prems" show ?thesis by (subst (asm) recycle.simps) simp
    next
      case False
      then have rn: "r < length (data s)" by simp
      show ?thesis
      proof (cases "row_node (data s ! r) = None")
        case nn: False
        have "recycle (Suc r) fs fe c s = Inr (c', s')"
          using "1.prems" by (simp add: recycle_skip[OF lt rn nn])
        then show ?thesis using "1.IH"(2)[OF lt False nn] by simp
      next
        case none: True
        let ?free = "scan_free (rowsWithNodes s) fs fe c"
        have cf: "c \<le> ?free" using scan_free_props[of c "rowsWithNodes s" fs fe] by simp
        from "1.prems" obtain s1 where st: "stealNode r ?free s = Inr s1"
          and rec: "recycle (Suc r) fs fe (Suc ?free) s1 = Inr (c', s')"
          by (auto simp: recycle_steal[OF lt rn none] split: sum.splits)
        have "Suc ?free \<le> c'" using "1.IH"(1)[OF lt False none refl st rec] .
        with cf show ?thesis by simp
      qed
    qed
  qed
qed

section \<open>The handler as a whole\<close>

lemma table_isUpdating_id: "\<not> isUpdating s \<Longrightarrow> s\<lparr>isUpdating := False\<rparr> = s"
  by (cases s) simp

lemma fillEnd_le: "fillEnd_of s m \<le> length (data s)"
  by (simp add: fillEnd_of_def)

lemma uvr_busy: "isUpdating s \<Longrightarrow> updateVisibleRows s st ch = Inr s"
  by (simp add: updateVisibleRows_def)

lemma uvr_fast:
  "\<not> isUpdating s \<Longrightarrow> lastMidNdx s = Some (midNdx_of s st ch) \<Longrightarrow>
   updateVisibleRows s st ch = Inr s"
  by (simp add: updateVisibleRows_def midNdx_of_def Let_def table_isUpdating_id)

lemma uvr_full:
  "\<not> isUpdating s \<Longrightarrow> lastMidNdx s \<noteq> Some (midNdx_of s st ch) \<Longrightarrow>
   updateVisibleRows s st ch =
     (case recycle (fillStart_of s (midNdx_of s st ch)) (fillStart_of s (midNdx_of s st ch))
             (fillEnd_of s (midNdx_of s st ch)) 0
             (s\<lparr>isUpdating := True, lastMidNdx := Some (midNdx_of s st ch)\<rparr>) of
        Inl (e, s') \<Rightarrow> Inl (e, s')
      | Inr (cursor, s') \<Rightarrow> Inr (s'\<lparr>isUpdating := False\<rparr>))"
  by (simp add: updateVisibleRows_def midNdx_of_def Let_def fillStart_of_def fillEnd_of_def halfNodes_def)

lemma pool_inv_flags [simp]:
  "pool_inv (s\<lparr>isUpdating := b\<rparr>) = pool_inv s"
  "pool_inv (s\<lparr>lastMidNdx := m\<rparr>) = pool_inv s"
  by (simp_all add: pool_inv_def)

lemma enough_slots:
  assumes "pool_inv s" "fe \<le> length (data s)" "fe - fs \<le> length (rowsWithNodes s)"
  shows "length (filter (\<lambda>i. row_node (data s ! i) = None) [fs..<fe])
       \<le> length (filter (\<lambda>v. \<not> (fs < v \<and> v < fe)) (rowsWithNodes s))"
proof -
  let ?rwn = "rowsWithNodes s"
  let ?has = "\<lambda>i. row_node (data s ! i) \<noteq> None"
  let ?in = "\<lambda>v. fs < v \<and> v < fe"
  have dist: "distinct ?rwn" and mem: "\<forall>i < length (data s). ?has i = (i \<in> set ?rwn)"
    using assms(1) unfolding pool_inv_def by blast+
  have a: "length (filter ?has [fs..<fe]) + length (filter (\<lambda>i. \<not> ?has i) [fs..<fe]) = fe - fs"
    using sum_length_filter_compl[of ?has "[fs..<fe]"] by simp
  have b: "length (filter ?in ?rwn) + length (filter (\<lambda>v. \<not> ?in v) ?rwn) = length ?rwn"
    using sum_length_filter_compl[of ?in ?rwn] by simp
  have "set (filter ?in ?rwn) \<subseteq> set (filter ?has [fs..<fe])"
    using mem assms(2) by auto
  then have "card (set (filter ?in ?rwn)) \<le> card (set (filter ?has [fs..<fe]))"
    by (intro card_mono) simp_all
  moreover have "card (set (filter ?in ?rwn)) = length (filter ?in ?rwn)"
    using dist by (intro distinct_card distinct_filter)
  moreover have "card (set (filter ?has [fs..<fe])) = length (filter ?has [fs..<fe])"
    by (intro distinct_card distinct_filter) simp
  ultimately have c: "length (filter ?in ?rwn) \<le> length (filter ?has [fs..<fe])" by simp
  have "length (filter (\<lambda>i. \<not> ?has i) [fs..<fe]) \<le> length (filter (\<lambda>v. \<not> ?in v) ?rwn)"
    using a b c assms(3) by linarith
  then show ?thesis by simp
qed

lemma uvr_full_returns:
  assumes "\<not> isUpdating s" "lastMidNdx s \<noteq> Some (midNdx_of s st ch)" "pool_inv s"
  shows "returned (updateVisibleRows s st ch) \<longleftrightarrow>
     length (missingRows s (fillStart_of s (midNdx_of s st ch)) (fillEnd_of s (midNdx_of s st ch)))
       \<le> length (stealableSlots s (fillStart_of s (midNdx_of s st ch)) (fillEnd_of s (midNdx_of s st ch)))"
proof -
  let ?m = "midNdx_of s st ch"
  let ?fs = "fillStart_of s ?m" and ?fe = "fillEnd_of s ?m"
  let ?s2 = "s\<lparr>isUpdating := True, lastMidNdx := Some ?m\<rparr>"
  have inv2: "pool_inv ?s2" using assms(3) by simp
  have fe: "?fe \<le> length (data ?s2)" by (simp add: fillEnd_le)
  have iff: "(\<exists>c' s'. recycle ?fs ?fs ?fe 0 ?s2 = Inr (c', s')) \<longleftrightarrow>
     length (filter (\<lambda>i. row_node (data ?s2 ! i) = None) [?fs..<?fe])
       \<le> length (filter (\<lambda>v. \<not> (?fs < v \<and> v < ?fe)) (drop 0 (rowsWithNodes ?s2)))"
    by (rule recycle_returns_iff[OF inv2 fe]) simp
  have "returned (updateVisibleRows s st ch) \<longleftrightarrow> (\<exists>c' s'. recycle ?fs ?fs ?fe 0 ?s2 = Inr (c', s'))"
    unfolding uvr_full[OF assms(1,2)] returned_def
    by (cases "recycle ?fs ?fs ?fe 0 ?s2") auto
  then show ?thesis using iff by (simp add: missingRows_def stealableSlots_def)
qed

lemma uvr_full_outcome:
  assumes "\<not> isUpdating s" "lastMidNdx s \<noteq> Some (midNdx_of s st ch)" "pool_inv s"
  shows "pool_inv (outcome (updateVisibleRows s st ch))"
    and "lastMidNdx (outcome (updateVisibleRows s st ch)) = Some (midNdx_of s st ch)"
    and "isUpdating (outcome (updateVisibleRows s st ch)) = (\<not> returned (updateVisibleRows s st ch))"
    and "\<not> returned (updateVisibleRows s st ch) \<longrightarrow> thrown (updateVisibleRows s st ch) = Some TypeError"
    and "length (data (outcome (updateVisibleRows s st ch))) = length (data s)"
    and "availableNodes (outcome (updateVisibleRows s st ch)) = availableNodes s"
    and "map row_top (data (outcome (updateVisibleRows s st ch))) = map row_top (data s)"
proof -
  let ?m = "midNdx_of s st ch"
  let ?fs = "fillStart_of s ?m" and ?fe = "fillEnd_of s ?m"
  let ?s2 = "s\<lparr>isUpdating := True, lastMidNdx := Some ?m\<rparr>"
  have inv2: "pool_inv ?s2" using assms(3) by simp
  have fe: "?fe \<le> length (data ?s2)" by (simp add: fillEnd_le)
  note ri = recycle_inv[OF inv2 fe, of ?fs ?fs 0]
  have all: "pool_inv (outcome (updateVisibleRows s st ch))
    \<and> lastMidNdx (outcome (updateVisibleRows s st ch)) = Some (midNdx_of s st ch)
    \<and> isUpdating (outcome (updateVisibleRows s st ch)) = (\<not> returned (updateVisibleRows s st ch))
    \<and> (\<not> returned (updateVisibleRows s st ch) \<longrightarrow> thrown (updateVisibleRows s st ch) = Some TypeError)
    \<and> length (data (outcome (updateVisibleRows s st ch))) = length (data s)
    \<and> availableNodes (outcome (updateVisibleRows s st ch)) = availableNodes s
    \<and> map row_top (data (outcome (updateVisibleRows s st ch))) = map row_top (data s)"
  proof (cases "recycle ?fs ?fs ?fe 0 ?s2")
    case (Inl err)
    obtain e s' where err: "err = (e, s')" by (cases err)
    have r: "recycle ?fs ?fs ?fe 0 ?s2 = Inl (e, s')" using Inl err by simp
    from ri r have p: "e = TypeError" "pool_inv s'" "same_config ?s2 s'" by blast+
    have u: "updateVisibleRows s st ch = Inl (e, s')"
      unfolding uvr_full[OF assms(1,2)] r by simp
    show ?thesis
      using p same_config_length[OF p(3)]
      by (simp add: u outcome_def returned_def thrown_def same_config_def)
  next
    case (Inr res)
    obtain c' s' where res: "res = (c', s')" by (cases res)
    have r: "recycle ?fs ?fs ?fe 0 ?s2 = Inr (c', s')" using Inr res by simp
    from ri r have p: "pool_inv s'" "same_config ?s2 s'" by blast+
    have u: "updateVisibleRows s st ch = Inr (s'\<lparr>isUpdating := False\<rparr>)"
      unfolding uvr_full[OF assms(1,2)] r by simp
    show ?thesis
      using p same_config_length[OF p(2)]
      by (simp add: u outcome_def returned_def thrown_def same_config_def)
  qed
  from all show "pool_inv (outcome (updateVisibleRows s st ch))" by blast
  from all show "lastMidNdx (outcome (updateVisibleRows s st ch)) = Some (midNdx_of s st ch)" by blast
  from all show "isUpdating (outcome (updateVisibleRows s st ch)) = (\<not> returned (updateVisibleRows s st ch))" by blast
  from all show "\<not> returned (updateVisibleRows s st ch) \<longrightarrow> thrown (updateVisibleRows s st ch) = Some TypeError" by blast
  from all show "length (data (outcome (updateVisibleRows s st ch))) = length (data s)" by blast
  from all show "availableNodes (outcome (updateVisibleRows s st ch)) = availableNodes s" by blast
  from all show "map row_top (data (outcome (updateVisibleRows s st ch))) = map row_top (data s)" by blast
qed

lemma map_row_node_update_keep:
  "map row_top (ys[i := (ys ! i)\<lparr>row_node := v\<rparr>]) = map row_top ys"
  "map payload (ys[i := (ys ! i)\<lparr>row_node := v\<rparr>]) = map payload ys"
  by (simp_all add: map_update map_nth_update_id)

lemma stealNode_same_config:
  "stealNode r free s = Inr s' \<or> stealNode r free s = Inl (e, s') \<Longrightarrow> same_config s s'"
  unfolding stealNode_def Let_def same_config_def
  by (auto split: if_splits option.splits simp: map_row_node_update_keep)

lemma recycle_same_config:
  "recycle r fs fe c s = Inr (c', s') \<or> recycle r fs fe c s = Inl (e, s') \<Longrightarrow> same_config s s'"
proof (induction r fs fe c s rule: recycle.induct)
  case (1 r fs fe c s)
  show ?case
  proof (cases "r < fe")
    case False
    with "1.prems" show ?thesis by (auto simp: recycle_done same_config_refl)
  next
    case lt: True
    show ?thesis
    proof (cases "length (data s) \<le> r")
      case True
      have "recycle r fs fe c s = Inl (TypeError, s)"
        using lt True by (subst recycle.simps) simp
      with "1.prems" show ?thesis by (auto simp: same_config_refl)
    next
      case False
      then have rn: "r < length (data s)" by simp
      show ?thesis
      proof (cases "row_node (data s ! r) = None")
        case nn: False
        have "recycle (Suc r) fs fe c s = Inr (c', s') \<or> recycle (Suc r) fs fe c s = Inl (e, s')"
          using "1.prems" by (simp add: recycle_skip[OF lt rn nn])
        then show ?thesis using "1.IH"(2)[OF lt False nn] by simp
      next
        case none: True
        let ?free = "scan_free (rowsWithNodes s) fs fe c"
        show ?thesis
        proof (cases "stealNode r ?free s")
          case (Inl err)
          then have "recycle r fs fe c s = Inl err" by (simp add: recycle_steal[OF lt rn none])
          with "1.prems" have "err = (e, s')" by auto
          with Inl show ?thesis using stealNode_same_config[of r ?free s s' e] by simp
        next
          case (Inr s1)
          then have unf: "recycle r fs fe c s = recycle (Suc r) fs fe (Suc ?free) s1"
            by (simp add: recycle_steal[OF lt rn none])
          have sc1: "same_config s s1" using stealNode_same_config[of r ?free s s1] Inr by simp
          have "same_config s1 s'"
            using "1.IH"(1)[OF lt False none refl Inr] "1.prems" unfolding unf by simp
          with sc1 show ?thesis by (rule same_config_trans)
        qed
      qed
    qed
  qed
qed

lemma uvr_outcome_flags:
  assumes "\<not> isUpdating s" "lastMidNdx s \<noteq> Some (midNdx_of s st ch)"
  shows "lastMidNdx (outcome (updateVisibleRows s st ch)) = Some (midNdx_of s st ch)"
    and "isUpdating (outcome (updateVisibleRows s st ch)) = (\<not> returned (updateVisibleRows s st ch))"
    and "map row_top (data (outcome (updateVisibleRows s st ch))) = map row_top (data s)"
proof -
  let ?m = "midNdx_of s st ch"
  let ?fs = "fillStart_of s ?m" and ?fe = "fillEnd_of s ?m"
  let ?s2 = "s\<lparr>isUpdating := True, lastMidNdx := Some ?m\<rparr>"
  have all: "lastMidNdx (outcome (updateVisibleRows s st ch)) = Some (midNdx_of s st ch)
    \<and> isUpdating (outcome (updateVisibleRows s st ch)) = (\<not> returned (updateVisibleRows s st ch))
    \<and> map row_top (data (outcome (updateVisibleRows s st ch))) = map row_top (data s)"
  proof (cases "recycle ?fs ?fs ?fe 0 ?s2")
    case (Inl err)
    obtain e s' where err: "err = (e, s')" by (cases err)
    have r: "recycle ?fs ?fs ?fe 0 ?s2 = Inl (e, s')" using Inl err by simp
    have p: "same_config ?s2 s'" using recycle_same_config[of ?fs ?fs ?fe 0 ?s2 _ s' e] r by simp
    have u: "updateVisibleRows s st ch = Inl (e, s')"
      unfolding uvr_full[OF assms(1,2)] r by simp
    show ?thesis using p by (simp add: u outcome_def returned_def same_config_def)
  next
    case (Inr res)
    obtain c' s' where res: "res = (c', s')" by (cases res)
    have r: "recycle ?fs ?fs ?fe 0 ?s2 = Inr (c', s')" using Inr res by simp
    have p: "same_config ?s2 s'" using recycle_same_config[of ?fs ?fs ?fe 0 ?s2 c' s'] r by simp
    have u: "updateVisibleRows s st ch = Inr (s'\<lparr>isUpdating := False\<rparr>)"
      unfolding uvr_full[OF assms(1,2)] r by simp
    show ?thesis using p by (simp add: u outcome_def returned_def same_config_def)
  qed
  from all show "lastMidNdx (outcome (updateVisibleRows s st ch)) = Some (midNdx_of s st ch)" by blast
  from all show "isUpdating (outcome (updateVisibleRows s st ch)) = (\<not> returned (updateVisibleRows s st ch))" by blast
  from all show "map row_top (data (outcome (updateVisibleRows s st ch))) = map row_top (data s)" by blast
qed

lemma sortedIndex_loop_map:
  "high \<le> length xs \<Longrightarrow>
   sortedIndex_loop xs v f low high = sortedIndex_loop (map f xs) v (\<lambda>x. x) low high"
proof (induction xs v f low high rule: sortedIndex_loop.induct)
  case (1 array v iteratee low high)
  show ?case
  proof (cases "low < high")
    case True
    let ?mid = "(low + high) div 2"
    have m: "?mid < length array" using True "1.prems" by simp
    have le: "?mid \<le> length array" using m by simp
    show ?thesis
    proof (cases "iteratee (array ! ?mid) < v")
      case lt: True
      have L: "sortedIndex_loop array v iteratee low high =
          sortedIndex_loop array v iteratee (Suc ?mid) high"
        using True lt by (subst sortedIndex_loop.simps) (simp add: Let_def)
      have R: "sortedIndex_loop (map iteratee array) v (\<lambda>x. x) low high =
          sortedIndex_loop (map iteratee array) v (\<lambda>x. x) (Suc ?mid) high"
        using True lt m by (subst sortedIndex_loop.simps) (simp add: Let_def)
      show ?thesis
        unfolding L R by (rule "1.IH"(1)[OF True refl lt "1.prems"])
    next
      case ge: False
      have L: "sortedIndex_loop array v iteratee low high =
          sortedIndex_loop array v iteratee low ?mid"
        using True ge by (subst sortedIndex_loop.simps) (simp add: Let_def)
      have R: "sortedIndex_loop (map iteratee array) v (\<lambda>x. x) low high =
          sortedIndex_loop (map iteratee array) v (\<lambda>x. x) low ?mid"
        using True ge m by (subst sortedIndex_loop.simps) (simp add: Let_def)
      show ?thesis
        unfolding L R by (rule "1.IH"(2)[OF True refl ge le])
    qed
  next
    case False
    have L: "sortedIndex_loop array v iteratee low high = high"
      using False by (subst sortedIndex_loop.simps) simp
    have R: "sortedIndex_loop (map iteratee array) v (\<lambda>x. x) low high = high"
      using False by (subst sortedIndex_loop.simps) simp
    show ?thesis unfolding L R ..
  qed
qed

lemma midNdx_of_cong:
  assumes "map row_top (data s') = map row_top (data s)"
  shows "midNdx_of s' st ch = midNdx_of s st ch"
proof -
  have len: "length (data s') = length (data s)" using assms by (metis length_map)
  show ?thesis
    unfolding midNdx_of_def sortedIndex_def
    using sortedIndex_loop_map[of "length (data s')" "data s'" _ row_top 0]
      sortedIndex_loop_map[of "length (data s)" "data s" _ row_top 0] assms len by simp
qed

lemma pool_inv_assigned:
  assumes "pool_inv s"
  shows "set (assignedRows s) = set (rowsWithNodes s)"
    and "length (assignedRows s) = min (availableNodes s) (length (data s))"
    and "distinct (assignedNodes s)"
proof -
  let ?n = "length (data s)"
  have inv: "distinct (rowsWithNodes s)" "\<forall>j \<in> set (rowsWithNodes s). j < ?n"
    "\<forall>i < ?n. (row_node (data s ! i) \<noteq> None) = (i \<in> set (rowsWithNodes s))"
    "\<forall>i < ?n. \<forall>j < ?n. row_node (data s ! i) \<noteq> None \<and> row_node (data s ! i) = row_node (data s ! j) \<longrightarrow> i = j"
    "length (rowsWithNodes s) = min (availableNodes s) ?n"
    using assms unfolding pool_inv_def by blast+
  show set_eq: "set (assignedRows s) = set (rowsWithNodes s)"
    using inv(2,3) by (auto simp: assignedRows_def)
  have d: "distinct (assignedRows s)" by (simp add: assignedRows_def)
  have "length (assignedRows s) = card (set (assignedRows s))"
    using d by (simp add: distinct_card)
  also have "\<dots> = card (set (rowsWithNodes s))" by (simp add: set_eq)
  also have "\<dots> = length (rowsWithNodes s)" using inv(1) by (simp add: distinct_card)
  finally show "length (assignedRows s) = min (availableNodes s) (length (data s))"
    using inv(5) by simp
  have "inj_on (\<lambda>i. the (row_node (data s ! i))) (set (assignedRows s))"
  proof (rule inj_onI)
    fix i j
    assume i: "i \<in> set (assignedRows s)" and j: "j \<in> set (assignedRows s)"
      and e: "the (row_node (data s ! i)) = the (row_node (data s ! j))"
    have il: "i < ?n" "row_node (data s ! i) \<noteq> None" using i by (auto simp: assignedRows_def)
    have jl: "j < ?n" "row_node (data s ! j) \<noteq> None" using j by (auto simp: assignedRows_def)
    have "row_node (data s ! i) = row_node (data s ! j)" using il(2) jl(2) e by auto
    then show "i = j" using inv(4) il jl by blast
  qed
  then show "distinct (assignedNodes s)"
    unfolding assignedNodes_def using d by (simp add: distinct_map)
qed

lemma missing_le_window:
  "length (missingRows s fs fe) \<le> fe - fs"
  unfolding missingRows_def using length_filter_le[of _ "[fs..<fe]"] by simp

lemma stealable_le_pool:
  "length (stealableSlots s fs fe) \<le> length (rowsWithNodes s)"
  unfolding stealableSlots_def by (rule length_filter_le)

lemma uvr_from_zero: "updateVisibleRows_from 0 s st ch = updateVisibleRows s st ch"
  by (simp add: updateVisibleRows_from_def updateVisibleRows_def Let_def)

lemma stealNode_rowsWithNodes:
  "stealNode r free s = Inr s' \<Longrightarrow> rowsWithNodes s' = (rowsWithNodes s)[free := r]"
  "stealNode r free s = Inl (e, s') \<Longrightarrow> rowsWithNodes s' = rowsWithNodes s"
  unfolding stealNode_def Let_def by (auto split: if_splits option.splits)

lemma recycle_keeps_below:
  "recycle r fs fe c s = Inr (c', s') \<or> recycle r fs fe c s = Inl (e, s') \<Longrightarrow>
   length (rowsWithNodes s') = length (rowsWithNodes s)
   \<and> (\<forall>j<c. rowsWithNodes s' ! j = rowsWithNodes s ! j)"
proof (induction r fs fe c s rule: recycle.induct)
  case (1 r fs fe c s)
  show ?case
  proof (cases "r < fe")
    case False
    with "1.prems" show ?thesis by (auto simp: recycle_done)
  next
    case lt: True
    show ?thesis
    proof (cases "length (data s) \<le> r")
      case True
      have "recycle r fs fe c s = Inl (TypeError, s)"
        using lt True by (subst recycle.simps) simp
      with "1.prems" show ?thesis by auto
    next
      case False
      then have rn: "r < length (data s)" by simp
      show ?thesis
      proof (cases "row_node (data s ! r) = None")
        case nn: False
        have "recycle (Suc r) fs fe c s = Inr (c', s') \<or> recycle (Suc r) fs fe c s = Inl (e, s')"
          using "1.prems" by (simp add: recycle_skip[OF lt rn nn])
        then show ?thesis using "1.IH"(2)[OF lt False nn] by simp
      next
        case none: True
        let ?free = "scan_free (rowsWithNodes s) fs fe c"
        have cf: "c \<le> ?free" using scan_free_props[of c "rowsWithNodes s" fs fe] by simp
        show ?thesis
        proof (cases "stealNode r ?free s")
          case (Inl err)
          then have "recycle r fs fe c s = Inl err" by (simp add: recycle_steal[OF lt rn none])
          with "1.prems" have "err = (e, s')" by auto
          with Inl show ?thesis using stealNode_rowsWithNodes(2)[of r ?free s e s'] by simp
        next
          case (Inr s1)
          then have unf: "recycle r fs fe c s = recycle (Suc r) fs fe (Suc ?free) s1"
            by (simp add: recycle_steal[OF lt rn none])
          have r1: "rowsWithNodes s1 = (rowsWithNodes s)[?free := r]"
            using stealNode_rowsWithNodes(1)[OF Inr] .
          have ih: "length (rowsWithNodes s') = length (rowsWithNodes s1)
            \<and> (\<forall>j<Suc ?free. rowsWithNodes s' ! j = rowsWithNodes s1 ! j)"
            using "1.IH"(1)[OF lt False none refl Inr] "1.prems" unfolding unf by simp
          show ?thesis using ih cf by (auto simp: r1)
        qed
      qed
    qed
  qed
qed

lemma recycle_skip_to:
  assumes "r \<le> r0" "r0 \<le> fe" "fe \<le> length (data s)"
    and "\<forall>i. r \<le> i \<and> i < r0 \<longrightarrow> row_node (data s ! i) \<noteq> None"
  shows "recycle r fs fe c s = recycle r0 fs fe c s"
  using assms
proof (induction "r0 - r" arbitrary: r)
  case 0
  then show ?case by simp
next
  case (Suc d)
  then have lt: "r < fe" and rn: "r < length (data s)" and nn: "row_node (data s ! r) \<noteq> None"
    by auto
  have "recycle (Suc r) fs fe c s = recycle r0 fs fe c s"
    using Suc by (intro Suc.hyps(1)) auto
  then show ?case by (simp add: recycle_skip[OF lt rn nn])
qed

lemma recycle_first_steal:
  assumes "pool_inv s" "fe \<le> length (data s)" "r \<le> r0" "r0 < fe"
    and "row_node (data s ! r0) = None"
    and "\<forall>i. r \<le> i \<and> i < r0 \<longrightarrow> row_node (data s ! i) \<noteq> None"
    and "scan_free (rowsWithNodes s) fs fe c < length (rowsWithNodes s)"
    and "recycle r fs fe c s = Inr (c', s') \<or> recycle r fs fe c s = Inl (e, s')"
  shows "rowsWithNodes s' ! scan_free (rowsWithNodes s) fs fe c = r0
    \<and> (\<forall>j<scan_free (rowsWithNodes s) fs fe c. rowsWithNodes s' ! j = rowsWithNodes s ! j)
    \<and> (recycle r fs fe c s = Inr (c', s') \<longrightarrow> scan_free (rowsWithNodes s) fs fe c < c')"
proof -
  let ?k = "scan_free (rowsWithNodes s) fs fe c"
  have rn: "r0 < length (data s)" using assms(2,4) by simp
  have sk: "recycle r fs fe c s = recycle r0 fs fe c s"
    using assms(3,4,2,6) by (intro recycle_skip_to) simp_all
  from stealNode_result[OF assms(1,7) rn assms(5)]
  obtain s1 where st: "stealNode r0 ?k s = Inr s1" by blast
  have r1: "rowsWithNodes s1 = (rowsWithNodes s)[?k := r0]"
    using stealNode_rowsWithNodes(1)[OF st] .
  have unf: "recycle r fs fe c s = recycle (Suc r0) fs fe (Suc ?k) s1"
    unfolding sk by (simp add: recycle_steal[OF assms(4) rn assms(5)] st)
  have "length (rowsWithNodes s') = length (rowsWithNodes s1)
      \<and> (\<forall>j<Suc ?k. rowsWithNodes s' ! j = rowsWithNodes s1 ! j)"
    using recycle_keeps_below[of "Suc r0" fs fe "Suc ?k" s1 c' s' e] assms(8) unfolding unf by simp
  moreover have "recycle r fs fe c s = Inr (c', s') \<longrightarrow> ?k < c'"
    using recycle_cursor_mono[of "Suc r0" fs fe "Suc ?k" s1 c' s'] unfolding unf by auto
  ultimately show ?thesis using assms(7) by (auto simp: r1)
qed

section \<open>Facts about the example tables\<close>

lemma example_new_table:
  "el_children (new_table [] rows hf p vh) = []"
  "next_node (new_table [] rows hf p vh) = 0"
  "length (data (new_table [] rows hf p vh)) = length rows"
  "availableNodes (new_table [] rows hf p vh) = p"
  "heightFn (new_table [] rows hf p vh) = hf"
  "events (new_table [] rows hf p vh) = []"
  "lastMidNdx (new_table [] rows hf p vh) = None"
  "isUpdating (new_table [] rows hf p vh) = False"
  "el_listeners (new_table [] rows hf p vh) = 0"
  by (simp_all add: new_table_def)

lemma example_table_reset:
  "reset (new_table [] (replicate n ()) default_heightFn p 400) = Some (example_table n p)"
proof -
  have "reset (new_table [] (replicate n ()) default_heightFn p 400) \<noteq> None"
    by (simp add: reset_returns example_new_table)
  then show ?thesis by (auto simp: example_table_def ScrollableTable_def)
qed

lemma example_table_props:
  shows "length (data (example_table n p)) = n"
    and "rowsWithNodes (example_table n p) = [0..<min p n]"
    and "events (example_table n p) = map (\<lambda>i. BuildRow i i) [0..<min p n]"
    and "\<forall>i<n. row_top (data (example_table n p) ! i) = 10 * rat_of_nat i"
    and "\<forall>i<n. row_node (data (example_table n p) ! i) = (if i < min p n then Some i else None)"
    and "\<forall>i<min p n. style_top (example_table n p) i = Some (10 * rat_of_nat i)"
    and "bottomEl (example_table n p) = Some (min p n)"
    and "style_top (example_table n p) (min p n) = Some (10 * rat_of_nat n)"
    and "totalHeight (example_table n p) = 10 * rat_of_nat n"
    and "availableNodes (example_table n p) = p"
    and "lastMidNdx (example_table n p) = None"
    and "isUpdating (example_table n p) = False"
    and "pool_inv (example_table n p)"
proof -
  let ?t0 = "new_table [] (replicate n ()) default_heightFn p 400 :: unit table"
  let ?c = "calculateHeights_loop 0 (?t0\<lparr>yPosition := 0, totalHeight := 0\<rparr>)"
  have e: "el_children ?t0 = []" by (simp add: example_new_table)
  note r = reset_result[OF e example_table_reset, simplified example_new_table, simplified]
  have ctop: "\<forall>i<n. row_top (data ?c ! i) = 10 * rat_of_nat i"
    using chl_top[of 0 _ "?t0\<lparr>yPosition := 0, totalHeight := 0\<rparr>"]
    by (simp add: example_new_table default_heightFn_def)
  have ctot: "totalHeight ?c = 10 * rat_of_nat n"
    using chl_total[of 0 "?t0\<lparr>yPosition := 0, totalHeight := 0\<rparr>"]
    by (simp add: example_new_table default_heightFn_def)
  show "length (data (example_table n p)) = n" using r(1) by simp
  show "rowsWithNodes (example_table n p) = [0..<min p n]" using r(2) by simp
  show "events (example_table n p) = map (\<lambda>i. BuildRow i i) [0..<min p n]" using r(3) by simp
  show tops: "\<forall>i<n. row_top (data (example_table n p) ! i) = 10 * rat_of_nat i"
    using r(5) ctop by simp
  show "\<forall>i<n. row_node (data (example_table n p) ! i) = (if i < min p n then Some i else None)"
    using r(5) by simp
  show "\<forall>i<min p n. style_top (example_table n p) i = Some (10 * rat_of_nat i)"
    using r(6) tops by simp
  show "bottomEl (example_table n p) = Some (min p n)" using r(7) by simp
  show "totalHeight (example_table n p) = 10 * rat_of_nat n" using r(9) ctot by simp
  then show "style_top (example_table n p) (min p n) = Some (10 * rat_of_nat n)" using r(8) by simp
  show "availableNodes (example_table n p) = p" using r(10) by simp
  show "lastMidNdx (example_table n p) = None" using r(11) by simp
  show "isUpdating (example_table n p) = False" using r(12) by simp
  show "pool_inv (example_table n p)" by (rule pool_inv_reset[OF e example_table_reset])
qed

lemma filter_less_upt: "k \<le> n \<Longrightarrow> filter (\<lambda>i. i < k) [0..<n] = [0..<k]"
proof -
  assume "k \<le> n"
  then have "[0..<n] = [0..<k] @ [k..<n]"
    using upt_add_eq_append[of 0 k "n - k"] by simp
  then show ?thesis by simp
qed

lemma example_table_sorted: "sorted (map row_top (data (example_table n p)))"
proof -
  note ex = example_table_props[where n=n and p=p]
  show ?thesis
    unfolding sorted_iff_nth_Suc using ex(1,4) by simp
qed

lemma example_midNdx:
  assumes "k \<le> n" "rat_of_nat k * 10 - 10 < screenMidpoint st ch" "screenMidpoint st ch \<le> rat_of_nat k * 10"
  shows "midNdx_of (example_table n p) st ch = k"
  unfolding midNdx_of_def
proof (rule sortedIndex_unique[OF example_table_sorted])
  note ex = example_table_props[where n=n and p=p]
  show "k \<le> length (data (example_table n p))" using assms(1) ex(1) by simp
  show "\<forall>i<k. row_top (data (example_table n p) ! i) < screenMidpoint st ch"
  proof (intro allI impI)
    fix i assume i: "i < k"
    then have "Suc i \<le> k" by simp
    then have "rat_of_nat (Suc i) \<le> rat_of_nat k" by (simp only: of_nat_le_iff)
    then have "10 * rat_of_nat i \<le> rat_of_nat k * 10 - 10" by simp
    moreover have "row_top (data (example_table n p) ! i) = 10 * rat_of_nat i"
      using ex(4) i assms(1) by simp
    ultimately show "row_top (data (example_table n p) ! i) < screenMidpoint st ch"
      using assms(2) by simp
  qed
  show "\<forall>i. k \<le> i \<and> i < length (data (example_table n p)) \<longrightarrow>
      screenMidpoint st ch \<le> row_top (data (example_table n p) ! i)"
  proof (intro allI impI)
    fix i assume i: "k \<le> i \<and> i < length (data (example_table n p))"
    then have "rat_of_nat k \<le> rat_of_nat i" by (simp only: of_nat_le_iff)
    then have "rat_of_nat k * 10 \<le> 10 * rat_of_nat i" by simp
    moreover have "row_top (data (example_table n p) ! i) = 10 * rat_of_nat i"
      using ex(4) i ex(1) by simp
    ultimately show "screenMidpoint st ch \<le> row_top (data (example_table n p) ! i)"
      using assms(3) by simp
  qed
qed

lemma reset_Some_children: "reset s = Some s' \<Longrightarrow> el_children s = []"
proof (rule ccontr)
  assume a: "reset s = Some s'" and b: "el_children s \<noteq> []"
  from reset_diverges[OF b] a show False by simp
qed

lemma reset_again_diverges: "reset s = Some s' \<Longrightarrow> reset s' = None"
proof -
  assume a: "reset s = Some s'"
  have e: "el_children s = []" using a by (rule reset_Some_children)
  have "el_children s' \<noteq> []" using reset_result(4)[OF e a] by simp
  then show ?thesis by (rule reset_diverges)
qed

section \<open>Verified properties\<close>

subsection \<open>Offsets\<close>



subsection \<open>Initialisation\<close>

text \<open>
  Claim C8. On a container without children (the state of a fresh construction),
  \<^verbatim>\<open>reset\<close> returns, and with \<open>n\<close> rows and pool budget \<open>p\<close> it has called the
  build callback exactly \<open>min p n\<close> times, once for each of the rows \<open>0\<close> to
  \<open>min p n - 1\<close> in order; those rows and no others hold the nodes built, each node is
  positioned at its row's cumulative offset as \<^verbatim>\<open>calculateHeights\<close> computed it, and
  the extent marker is a further new node positioned at the total extent. For 1000 rows
  of height 10 and budget 100, rows 0 to 99 are assigned, at positions \<open>index * 10\<close>,
  and the marker is at 10000; for budget 5 and 3 rows exactly 3 nodes are built.
\<close>

theorem reset_builds_pool:
  assumes "el_children s = []"
  shows "\<exists>s'. reset s = Some s'
    \<and> events s' = events s @ map (\<lambda>i. BuildRow i (next_node s + i))
                               [0..<min (availableNodes s) (length (data s))]
    \<and> rowsWithNodes s' = [0..<min (availableNodes s) (length (data s))]
    \<and> length (data s') = length (data s)
    \<and> (\<forall>i<length (data s). row_node (data s' ! i) =
          (if i < min (availableNodes s) (length (data s)) then Some (next_node s + i) else None))
    \<and> (\<forall>i<min (availableNodes s) (length (data s)).
          style_top s' (next_node s + i) = Some (row_top (data s' ! i)))
    \<and> (\<forall>i<length (data s). row_top (data s' ! i) =
          row_top (data (snd (calculateHeights (s\<lparr>yPosition := 0\<rparr>))) ! i))
    \<and> totalHeight s' = fst (calculateHeights (s\<lparr>yPosition := 0\<rparr>))
    \<and> bottomEl s' = Some (next_node s + min (availableNodes s) (length (data s)))
    \<and> style_top s' (next_node s + min (availableNodes s) (length (data s))) = Some (totalHeight s')
    \<and> el_listeners s' = Suc (el_listeners s)
    \<and> assignedRows (example_table 1000 100) = [0..<100]
    \<and> (\<forall>i<100. row_node (data (example_table 1000 100) ! i) = Some i
          \<and> style_top (example_table 1000 100) i = Some (rat_of_nat i * 10))
    \<and> bottomEl (example_table 1000 100) = Some 100
    \<and> style_top (example_table 1000 100) 100 = Some 10000
    \<and> events (example_table 3 5) = [BuildRow 0 0, BuildRow 1 1, BuildRow 2 2]"
proof -
  obtain s' where s': "reset s = Some s'" using assms by (simp add: reset_returns)
  note r = reset_result[OF assms s']
  have ch: "calculateHeights (s\<lparr>yPosition := 0\<rparr>) =
      (totalHeight (calculateHeights_loop 0 (s\<lparr>yPosition := 0, totalHeight := 0\<rparr>)),
       calculateHeights_loop 0 (s\<lparr>yPosition := 0, totalHeight := 0\<rparr>))"
    by (simp add: calculateHeights_def Let_def)
  have tops: "\<forall>i<length (data s). row_top (data s' ! i) =
          row_top (data (snd (calculateHeights (s\<lparr>yPosition := 0\<rparr>))) ! i)"
    using r(5) by (simp add: ch)
  have tot: "totalHeight s' = fst (calculateHeights (s\<lparr>yPosition := 0\<rparr>))"
    using r(9) by (simp add: ch)
  have nodes: "\<forall>i<length (data s). row_node (data s' ! i) =
          (if i < min (availableNodes s) (length (data s)) then Some (next_node s + i) else None)"
    using r(5) by simp
  note ex = example_table_props[where n=1000 and p=100]
  have a1: "assignedRows (example_table 1000 100) = [0..<100]"
  proof -
    have "filter (\<lambda>i. row_node (data (example_table 1000 100) ! i) \<noteq> None) [0..<1000]
        = filter (\<lambda>i. i < 100) [0..<1000]"
      by (rule filter_cong[OF refl]) (use ex(5) in auto)
    also have "\<dots> = [0..<100]"
      by (simp add: filter_less_upt)
    finally show ?thesis by (simp add: assignedRows_def ex(1))
  qed
  have a2: "\<forall>i<100. row_node (data (example_table 1000 100) ! i) = Some i
          \<and> style_top (example_table 1000 100) i = Some (rat_of_nat i * 10)"
    using ex(5,6) by (simp add: mult.commute)
  have a3: "bottomEl (example_table 1000 100) = Some 100" using ex(7) by simp
  have a4: "style_top (example_table 1000 100) 100 = Some 10000" using ex(8) by simp
  have a5: "events (example_table 3 5) = [BuildRow 0 0, BuildRow 1 1, BuildRow 2 2]"
    using example_table_props(3)[where n=3 and p=5] by (simp add: upt_rec)
  show ?thesis
    using s' r(3) r(2) r(1) nodes r(6) tops tot r(7) r(8) r(13) a1 a2 a3 a4 a5
    by (intro exI[of _ s']) simp
qed


text \<open>Three rows and budget 5 on an empty container: rows 0, 1, 2 are assigned.\<close>

theorem reset_builds_pool_witness:
  "el_children (new_table [] (replicate 3 ()) default_heightFn 5 400) = []
   \<and> reset (new_table [] (replicate 3 ()) default_heightFn 5 400) \<noteq> None
   \<and> rowsWithNodes (the (reset (new_table [] (replicate 3 ()) default_heightFn 5 400))) = [0, 1, 2]
   \<and> length (events (the (reset (new_table [] (replicate 3 ()) default_heightFn 5 400)))) = 3
   \<and> bottomEl (the (reset (new_table [] (replicate 3 ()) default_heightFn 5 400))) = Some 3"
proof -
  let ?t = "new_table [] (replicate 3 ()) default_heightFn 5 400 :: unit table"
  have h: "el_children ?t = []" by (simp add: example_new_table)
  from reset_builds_pool[OF h] obtain s' where
    s': "reset ?t = Some s'"
    and ev: "events s' = events ?t @ map (\<lambda>i. BuildRow i (next_node ?t + i))
                               [0..<min (availableNodes ?t) (length (data ?t))]"
    and rwn: "rowsWithNodes s' = [0..<min (availableNodes ?t) (length (data ?t))]"
    and be: "bottomEl s' = Some (next_node ?t + min (availableNodes ?t) (length (data ?t)))"
    by blast
  have m: "min (availableNodes ?t) (length (data ?t)) = 3" by (simp add: example_new_table)
  have "rowsWithNodes s' = [0, 1, 2]" using rwn unfolding m by (simp add: upt_rec)
  moreover have "length (events s') = 3" using ev unfolding m by (simp add: example_new_table)
  moreover have "bottomEl s' = Some 3" using be unfolding m by (simp add: example_new_table)
  ultimately show ?thesis using h s' by simp
qed

subsection \<open>Window location\<close>

text \<open>
  Claim C6. For a viewport with top \<open>st\<close> and height \<open>ch\<close> (so bottom \<open>st + ch\<close>)
  and ascending offsets, the handler computes the midpoint \<open>(top + bottom) / 2\<close>; its
  \<^verbatim>\<open>midNdx\<close> is the lower-bound insertion point of the midpoint (every offset before
  it is smaller, every offset from it on is at least the midpoint);
  \<open>fillStart = max(0, midNdx - ceil(budget/2))\<close> and
  \<open>fillEnd = min(rowCount, midNdx + ceil(budget/2))\<close>; and a pass that is not skipped
  runs the recycle loop over exactly that window. With 1000 rows of height 10, budget
  100, viewport height 400 and scroll top 5000, the midpoint is 5200, \<^verbatim>\<open>midNdx\<close> is 520
  and the window is \<open>[470, 570)\<close>.
\<close>

theorem window_locator:
  assumes "sorted (map row_top (data s))"
  shows "screenMidpoint st ch = (st + (st + ch)) / 2
    \<and> midNdx_of s st ch \<le> length (data s)
    \<and> (\<forall>i<midNdx_of s st ch. row_top (data s ! i) < screenMidpoint st ch)
    \<and> (\<forall>i. midNdx_of s st ch \<le> i \<and> i < length (data s) \<longrightarrow>
          screenMidpoint st ch \<le> row_top (data s ! i))
    \<and> int (fillStart_of s (midNdx_of s st ch)) =
          max 0 (int (midNdx_of s st ch) - \<lceil>rat_of_nat (availableNodes s) / 2\<rceil>)
    \<and> int (fillEnd_of s (midNdx_of s st ch)) =
          min (int (length (data s))) (int (midNdx_of s st ch) + \<lceil>rat_of_nat (availableNodes s) / 2\<rceil>)
    \<and> (\<not> isUpdating s \<and> lastMidNdx s \<noteq> Some (midNdx_of s st ch) \<longrightarrow>
          updateVisibleRows s st ch =
            (case recycle (fillStart_of s (midNdx_of s st ch)) (fillStart_of s (midNdx_of s st ch))
                    (fillEnd_of s (midNdx_of s st ch)) 0
                    (s\<lparr>isUpdating := True, lastMidNdx := Some (midNdx_of s st ch)\<rparr>) of
               Inl (e, s') \<Rightarrow> Inl (e, s')
             | Inr (cursor, s') \<Rightarrow> Inr (s'\<lparr>isUpdating := False\<rparr>)))
    \<and> screenMidpoint 5000 400 = 5200
    \<and> midNdx_of (example_table 1000 100) 5000 400 = 520
    \<and> fillStart_of (example_table 1000 100) 520 = 470
    \<and> fillEnd_of (example_table 1000 100) 520 = 570"
proof -
  note lb = sortedIndex_lower_bound[OF assms, of "screenMidpoint st ch"]
  have mp: "screenMidpoint 5000 400 = 5200" by (simp add: screenMidpoint_def Let_def)
  have mid: "midNdx_of (example_table 1000 100) 5000 400 = 520"
    by (rule example_midNdx) (simp_all add: mp)
  note ex = example_table_props[where n=1000 and p=100]
  have hn: "halfNodes (example_table 1000 100) = 50" by (simp add: halfNodes_eq ex(10))
  have fs: "fillStart_of (example_table 1000 100) 520 = 470"
    by (simp add: fillStart_of_def hn)
  have fe: "fillEnd_of (example_table 1000 100) 520 = 570"
    by (simp add: fillEnd_of_def hn ex(1))
  have g1: "screenMidpoint st ch = (st + (st + ch)) / 2" by (simp add: screenMidpoint_def Let_def)
  have g5: "int (fillStart_of s (midNdx_of s st ch)) =
          max 0 (int (midNdx_of s st ch) - \<lceil>rat_of_nat (availableNodes s) / 2\<rceil>)"
    by (simp add: fillStart_of_def halfNodes_def)
  have g6: "int (fillEnd_of s (midNdx_of s st ch)) =
          min (int (length (data s))) (int (midNdx_of s st ch) + \<lceil>rat_of_nat (availableNodes s) / 2\<rceil>)"
  proof -
    have "0 \<le> halfNodes s" by (simp add: halfNodes_eq)
    then show ?thesis by (simp add: fillEnd_of_def halfNodes_def)
  qed
  note g234 = lb[folded midNdx_of_def]
  have g7: "\<not> isUpdating s \<and> lastMidNdx s \<noteq> Some (midNdx_of s st ch) \<longrightarrow>
          updateVisibleRows s st ch =
            (case recycle (fillStart_of s (midNdx_of s st ch)) (fillStart_of s (midNdx_of s st ch))
                    (fillEnd_of s (midNdx_of s st ch)) 0
                    (s\<lparr>isUpdating := True, lastMidNdx := Some (midNdx_of s st ch)\<rparr>) of
               Inl (e, s') \<Rightarrow> Inl (e, s')
             | Inr (cursor, s') \<Rightarrow> Inr (s'\<lparr>isUpdating := False\<rparr>))"
    using uvr_full[of s st ch] by blast
  from g1 g234 g5 g6 g7 mp mid fs fe show ?thesis
    by (intro conjI)
qed


text \<open>Ten rows of height 10 with budget 4, viewport top 45 and height 10.\<close>

theorem window_locator_witness:
  "sorted (map row_top (data (example_table 10 4)))
   \<and> midNdx_of (example_table 10 4) 45 10 \<le> length (data (example_table 10 4))
   \<and> int (fillStart_of (example_table 10 4) (midNdx_of (example_table 10 4) 45 10)) =
         max 0 (int (midNdx_of (example_table 10 4) 45 10)
                  - \<lceil>rat_of_nat (availableNodes (example_table 10 4)) / 2\<rceil>)"
proof -
  have h: "sorted (map row_top (data (example_table 10 4)))" by (rule example_table_sorted)
  from window_locator[OF h, of 45 10] h show ?thesis by blast
qed

subsection \<open>The guard and the fast path\<close>

text \<open>
  Claim C10. A call of the handler that is not re-entrant (the guard is clear when it
  starts) and that returns leaves the guard \<^verbatim>\<open>isUpdating\<close> clear, on the fast path and
  on the full recycle path alike. The call does return on the fast path, and on the full
  path whenever the pool invariant holds and the window is no larger than the pool.
\<close>

theorem guard_cleared_on_return:
  assumes "\<not> isUpdating s"
  shows "(\<forall>s'. updateVisibleRows s st ch = Inr s' \<longrightarrow> \<not> isUpdating s')
    \<and> (lastMidNdx s = Some (midNdx_of s st ch) \<longrightarrow> updateVisibleRows s st ch = Inr s)
    \<and> (lastMidNdx s \<noteq> Some (midNdx_of s st ch) \<and> pool_inv s
         \<and> fillEnd_of s (midNdx_of s st ch) - fillStart_of s (midNdx_of s st ch)
              \<le> length (rowsWithNodes s)
        \<longrightarrow> returned (updateVisibleRows s st ch))"
proof -
  have a: "\<forall>s'. updateVisibleRows s st ch = Inr s' \<longrightarrow> \<not> isUpdating s'"
  proof (intro allI impI)
    fix s' assume r: "updateVisibleRows s st ch = Inr s'"
    show "\<not> isUpdating s'"
    proof (cases "lastMidNdx s = Some (midNdx_of s st ch)")
      case True
      then show ?thesis using r assms by (simp add: uvr_fast)
    next
      case False
      have "returned (updateVisibleRows s st ch)" and "outcome (updateVisibleRows s st ch) = s'"
        using r by (simp_all add: returned_def outcome_def)
      then show ?thesis using uvr_outcome_flags(2)[OF assms False] by simp
    qed
  qed
  have b: "lastMidNdx s = Some (midNdx_of s st ch) \<longrightarrow> updateVisibleRows s st ch = Inr s"
    using assms by (simp add: uvr_fast)
  have c: "lastMidNdx s \<noteq> Some (midNdx_of s st ch) \<and> pool_inv s
         \<and> fillEnd_of s (midNdx_of s st ch) - fillStart_of s (midNdx_of s st ch)
              \<le> length (rowsWithNodes s)
        \<longrightarrow> returned (updateVisibleRows s st ch)"
  proof
    assume h: "lastMidNdx s \<noteq> Some (midNdx_of s st ch) \<and> pool_inv s
         \<and> fillEnd_of s (midNdx_of s st ch) - fillStart_of s (midNdx_of s st ch)
              \<le> length (rowsWithNodes s)"
    then have "length (missingRows s (fillStart_of s (midNdx_of s st ch)) (fillEnd_of s (midNdx_of s st ch)))
       \<le> length (stealableSlots s (fillStart_of s (midNdx_of s st ch)) (fillEnd_of s (midNdx_of s st ch)))"
      unfolding missingRows_def stealableSlots_def
      by (intro enough_slots) (simp_all add: fillEnd_le)
    then show "returned (updateVisibleRows s st ch)"
      using uvr_full_returns[OF assms] h by blast
  qed
  from a b c show ?thesis by (intro conjI)
qed

text \<open>A full pass on ten rows with budget 4 returns with the guard clear.\<close>

theorem guard_cleared_on_return_witness:
  "\<not> isUpdating (example_table 10 4)
   \<and> returned (updateVisibleRows (example_table 10 4) 45 10)
   \<and> \<not> isUpdating (outcome (updateVisibleRows (example_table 10 4) 45 10))"
proof -
  have h: "\<not> isUpdating (example_table 10 4)"
    by (simp add: example_table_props(12)[where n=10 and p=4])
  have r: "returned (updateVisibleRows (example_table 10 4) 45 10)" by code_simp
  then obtain s' where s': "updateVisibleRows (example_table 10 4) 45 10 = Inr s'"
    by (cases "updateVisibleRows (example_table 10 4) 45 10") (auto simp: returned_def)
  from guard_cleared_on_return[OF h, of 45 10] s' have "\<not> isUpdating s'" by blast
  then show ?thesis using h r s' by (simp add: outcome_def)
qed

text \<open>
  Claim C5. When a notification follows another and resolves to the same \<^verbatim>\<open>midNdx\<close>,
  it returns the state it was given: the trace of callbacks, the node positions, the row
  records and \<^verbatim>\<open>rowsWithNodes\<close> are what they were, so there is no update callback and
  no position or assignment write.
\<close>

theorem same_midNdx_is_noop:
  assumes "midNdx_of (outcome (updateVisibleRows s st ch)) st' ch' = midNdx_of s st ch"
  shows "updateVisibleRows (outcome (updateVisibleRows s st ch)) st' ch'
           = Inr (outcome (updateVisibleRows s st ch))
    \<and> events (outcome (updateVisibleRows (outcome (updateVisibleRows s st ch)) st' ch'))
           = events (outcome (updateVisibleRows s st ch))
    \<and> style_top (outcome (updateVisibleRows (outcome (updateVisibleRows s st ch)) st' ch'))
           = style_top (outcome (updateVisibleRows s st ch))
    \<and> data (outcome (updateVisibleRows (outcome (updateVisibleRows s st ch)) st' ch'))
           = data (outcome (updateVisibleRows s st ch))
    \<and> rowsWithNodes (outcome (updateVisibleRows (outcome (updateVisibleRows s st ch)) st' ch'))
           = rowsWithNodes (outcome (updateVisibleRows s st ch))"
proof -
  let ?s1 = "outcome (updateVisibleRows s st ch)"
  have main: "updateVisibleRows ?s1 st' ch' = Inr ?s1"
  proof (cases "isUpdating s")
    case True
    then have "?s1 = s" by (simp add: uvr_busy outcome_def)
    then show ?thesis using True by (simp add: uvr_busy)
  next
    case nb: False
    show ?thesis
    proof (cases "lastMidNdx s = Some (midNdx_of s st ch)")
      case True
      then have s1: "?s1 = s" using nb by (simp add: uvr_fast outcome_def)
      show ?thesis using nb True assms unfolding s1 by (simp add: uvr_fast)
    next
      case False
      note f = uvr_outcome_flags[OF nb False]
      show ?thesis
      proof (cases "isUpdating ?s1")
        case True
        then show ?thesis by (rule uvr_busy)
      next
        case nb1: False
        show ?thesis using nb1 f(1) assms by (intro uvr_fast) simp_all
      qed
    qed
  qed
  then show ?thesis by (simp add: outcome_def)
qed

text \<open>Viewport tops 45 and then 44 (height 10) both resolve to row 5.\<close>

theorem same_midNdx_is_noop_witness:
  "midNdx_of (outcome (updateVisibleRows (example_table 10 4) 45 10)) 44 10
     = midNdx_of (example_table 10 4) 45 10
   \<and> returned (updateVisibleRows (example_table 10 4) 45 10)
   \<and> updateVisibleRows (outcome (updateVisibleRows (example_table 10 4) 45 10)) 44 10
       = Inr (outcome (updateVisibleRows (example_table 10 4) 45 10))"
proof -
  have h: "midNdx_of (outcome (updateVisibleRows (example_table 10 4) 45 10)) 44 10
     = midNdx_of (example_table 10 4) 45 10" by code_simp
  have r: "returned (updateVisibleRows (example_table 10 4) 45 10)" by code_simp
  from same_midNdx_is_noop[OF h] h r show ?thesis by blast
qed

subsection \<open>The pool across a pass\<close>




subsection \<open>A window larger than the pool\<close>




subsection \<open>Where the scan starts\<close>




subsection \<open>Two defects of the source\<close>

text \<open>
  Claim C7 fails on the code. The constructor on an empty container with three rows and
  budget 5 returns a table whose container has four children (three rows and the extent
  marker). A further \<^verbatim>\<open>reset\<close> on it never returns: the loop meant to clear the
  children calls \<^verbatim>\<open>el.remove(el.firstChild)\<close>, which removes nothing from the container,
  so \<^verbatim>\<open>firstChild\<close> stays set. The same holds after every \<^verbatim>\<open>reset\<close> that returned
  (lemma \<open>reset_again_diverges\<close>).
\<close>

theorem second_reset_never_returns:
  "ScrollableTable [] (replicate 3 ()) default_heightFn 5 400 = Some (example_table 3 5)
   \<and> el_children (example_table 3 5) = [0, 1, 2, 3]
   \<and> reset (example_table 3 5) = None"
proof -
  have a: "ScrollableTable [] (replicate 3 ()) default_heightFn 5 400 = Some (example_table 3 5)"
    using example_table_reset[of 3 5] by (simp add: ScrollableTable_def)
  have b: "el_children (example_table 3 5) = [0, 1, 2, 3]" by code_simp
  have c: "reset (example_table 3 5) = None"
    using example_table_reset[of 3 5] by (rule reset_again_diverges)
  from a b c show ?thesis by simp
qed

text \<open>
  Claim C4 fails on the code. Ten rows with budget 4; after the pass for viewport top 45
  row 4 holds node 0 in slot 0. The pass for viewport top 55 has the window \<open>[4, 8)\<close>;
  row 4 is inside it and holds a node, yet the scan stops at slot 0 because the test is
  \<^verbatim>\<open>rowsWithNodes[freeSearchNdx] > fillStart\<close> and \<open>4 > 4\<close> is false. Node 0 goes to
  row 7 and row 4, at the start of the window, is left without a node, while row 3
  outside the window keeps its own.
\<close>

theorem window_start_row_loses_node:
  "returned (updateVisibleRows (example_table 10 4) 45 10)
   \<and> fillStart_of (outcome (updateVisibleRows (example_table 10 4) 45 10))
        (midNdx_of (outcome (updateVisibleRows (example_table 10 4) 45 10)) 55 10) = 4
   \<and> fillEnd_of (outcome (updateVisibleRows (example_table 10 4) 45 10))
        (midNdx_of (outcome (updateVisibleRows (example_table 10 4) 45 10)) 55 10) = 8
   \<and> row_node (data (outcome (updateVisibleRows (example_table 10 4) 45 10)) ! 4) = Some 0
   \<and> rowsWithNodes (outcome (updateVisibleRows (example_table 10 4) 45 10)) = [4, 5, 6, 3]
   \<and> returned (updateVisibleRows (outcome (updateVisibleRows (example_table 10 4) 45 10)) 55 10)
   \<and> row_node (data (outcome (updateVisibleRows
         (outcome (updateVisibleRows (example_table 10 4) 45 10)) 55 10)) ! 4) = None
   \<and> row_node (data (outcome (updateVisibleRows
         (outcome (updateVisibleRows (example_table 10 4) 45 10)) 55 10)) ! 7) = Some 0
   \<and> row_node (data (outcome (updateVisibleRows
         (outcome (updateVisibleRows (example_table 10 4) 45 10)) 55 10)) ! 3) = Some 3
   \<and> assignedRows (outcome (updateVisibleRows
         (outcome (updateVisibleRows (example_table 10 4) 45 10)) 55 10)) = [3, 5, 6, 7]"
  by code_simp

end
